theory Spec2Isabelle
  imports Main "HOL-Library.FSet" "HOL-Library.Finite_Map"
begin

section \<open>The generic graph engine of graphs/graphs.hpp\<close>

text \<open>
  The class template \<open>Graph<T>\<close> is embedded as a record over a vertex type of class
  \<open>linorder\<close> (the order \<open>std::set\<close> and \<open>std::map\<close> iterate in, and the \<open>src < dest\<close> of
  \<open>join\<close>). \<open>std::set<T>\<close> is a finite set, \<open>std::map<T, vector<pair<T,int>>>\<close> a
  finite map to lists of pairs; a range-for over either visits the keys in ascending order.
  Member functions take the object and return the updated object; a \<open>throw\<close> is a value of
  type \<open>error\<close>, returned together with the state the object is left in. The \<open>int\<close>
  fields and results are modelled as unbounded integers: no count in this file comes near
  \<open>INT_MAX\<close> unless the graph holds \<open>2^31\<close> entries. Console output (\<open>cprint\<close>,
  \<open>cout\<close>) is not part of the model.
\<close>

datatype error = logic_error | invalid_argument | out_of_range

record 'a graph =
  numVertices :: int
  isDirected :: bool
  isWeighted :: bool
  adjList :: "('a, ('a \<times> int) list) fmap"
  vertices :: "'a fset"

definition Graph :: "bool \<Rightarrow> bool \<Rightarrow> 'a graph" where
  "Graph directed weighted =
     \<lparr>numVertices = 0, isDirected = directed, isWeighted = weighted,
      adjList = fmempty, vertices = {||}\<rparr>"

text \<open>\<open>m[k]\<close> on a \<open>std::map\<close>: the stored vector, and an empty one inserted when the key is absent.\<close>

definition neighbors :: "('a, ('a \<times> int) list) fmap \<Rightarrow> 'a \<Rightarrow> ('a \<times> int) list" where
  "neighbors m k = (case fmlookup m k of None \<Rightarrow> [] | Some xs \<Rightarrow> xs)"

definition push_back :: "('a, ('a \<times> int) list) fmap \<Rightarrow> 'a \<Rightarrow> 'a \<times> int \<Rightarrow> ('a, ('a \<times> int) list) fmap" where
  "push_back m k p = fmupd k (neighbors m k @ [p]) m"

text \<open>\<open>v.erase(remove_if(v.begin(), v.end(), [x](p) { return p.first == x; }), v.end())\<close> on \<open>m[k]\<close>.\<close>

definition erase_target :: "('a, ('a \<times> int) list) fmap \<Rightarrow> 'a \<Rightarrow> 'a \<Rightarrow> ('a, ('a \<times> int) list) fmap" where
  "erase_target m k x = fmupd k (filter (\<lambda>p. fst p \<noteq> x) (neighbors m k)) m"

text \<open>The pairs a range-for over the map yields, in key order.\<close>

definition entries :: "('a::linorder, ('a \<times> int) list) fmap \<Rightarrow> ('a \<times> ('a \<times> int) list) list" where
  "entries m = map (\<lambda>k. (k, neighbors m k)) (sorted_list_of_fset (fmdom m))"

definition addVertex :: "'a graph \<Rightarrow> 'a \<Rightarrow> 'a graph" where
  "addVertex g vertex =
     (if vertex |\<notin>| vertices g
      then g\<lparr>vertices := finsert vertex (vertices g),
             adjList := fmupd vertex [] (adjList g),
             numVertices := numVertices g + 1\<rparr>
      else g)"

definition addEdge :: "'a graph \<Rightarrow> 'a \<Rightarrow> 'a \<Rightarrow> int \<Rightarrow> 'a graph" where
  "addEdge g src dest weight =
     (let g1 = addVertex g src;
          g2 = addVertex g1 dest;
          g3 = g2\<lparr>adjList := push_back (adjList g2) src (dest, weight)\<rparr>
      in if \<not> isDirected g3
         then g3\<lparr>adjList := push_back (adjList g3) dest (src, weight)\<rparr>
         else g3)"

definition deleteVertex :: "'a graph \<Rightarrow> 'a \<Rightarrow> bool \<times> 'a graph" where
  "deleteVertex g vertex =
     (if vertex |\<notin>| vertices g then (False, g)
      else (True,
            g\<lparr>vertices := vertices g |-| {|vertex|},
              numVertices := numVertices g - 1,
              adjList := fmmap (filter (\<lambda>p. fst p \<noteq> vertex)) (fmdrop vertex (adjList g))\<rparr>))"

definition deleteEdge :: "'a graph \<Rightarrow> 'a \<Rightarrow> 'a \<Rightarrow> bool \<times> 'a graph" where
  "deleteEdge g src dest =
     (if src |\<notin>| vertices g \<or> dest |\<notin>| vertices g then (False, g)
      else
        let found = (\<exists>p \<in> set (neighbors (adjList g) src). fst p = dest);
            g1 = g\<lparr>adjList := erase_target (adjList g) src dest\<rparr>
        in if \<not> isDirected g1
           then (found, g1\<lparr>adjList := erase_target (adjList g1) dest src\<rparr>)
           else (found, g1))"

definition getNumVertices :: "'a graph \<Rightarrow> int" where
  "getNumVertices g = numVertices g"

definition getNumEdges :: "'a::linorder graph \<Rightarrow> int" where
  "getNumEdges g =
     (let count = fold (\<lambda>pair count. count + int (length (snd pair))) (entries (adjList g)) 0
      in if isDirected g then count else count div 2)"

definition getDegree :: "'a graph \<Rightarrow> 'a \<Rightarrow> error + int" where
  "getDegree g vertex =
     (if vertex |\<notin>| vertices g then Inl invalid_argument
      else case fmlookup (adjList g) vertex of
             None \<Rightarrow> Inr 0
           | Some nbrs \<Rightarrow> Inr (int (length nbrs)))"

subsection \<open>CompleteGraph\<close>

text \<open>
  \<open>CompleteGraph::addVertex\<close> runs a range-for over \<open>this->vertices\<close> whose body calls
  \<open>Graph<T>::addEdge(v, vertex)\<close>, and that call inserts \<open>vertex\<close> into the very set being
  iterated. A \<open>std::set\<close> iterator stays valid under insertion and \<open>++it\<close> moves to the
  in-order successor in the set as it is then: \<open>set_next\<close>. The loop starts at
  \<open>vertices.begin()\<close>, taken before the first insertion: \<open>set_begin\<close>.
\<close>

definition set_begin :: "'a::linorder fset \<Rightarrow> 'a option" where
  "set_begin S = (case sorted_list_of_fset S of [] \<Rightarrow> None | x # _ \<Rightarrow> Some x)"

definition set_next :: "'a::linorder fset \<Rightarrow> 'a \<Rightarrow> 'a option" where
  "set_next S v = (case filter (\<lambda>x. v < x) (sorted_list_of_fset S) of [] \<Rightarrow> None | x # _ \<Rightarrow> Some x)"

lemma vertices_addVertex: "vertices (addVertex g v) = finsert v (vertices g)"
  by (auto simp: addVertex_def)

lemma vertices_addEdge: "vertices (addEdge g s d w) = finsert d (finsert s (vertices g))"
  by (simp add: addEdge_def Let_def vertices_addVertex)

lemma set_next_Some: "set_next S v = Some n \<Longrightarrow> n |\<in>| S \<and> v < n"
proof -
  assume a: "set_next S v = Some n"
  then obtain r where "filter (\<lambda>x. v < x) (sorted_list_of_fset S) = n # r"
    by (auto simp: set_next_def split: list.splits)
  then have "n \<in> set (filter (\<lambda>x. v < x) (sorted_list_of_fset S))" by simp
  then show ?thesis by simp
qed

function CompleteGraph_addVertex_for :: "'a::linorder graph \<Rightarrow> 'a \<Rightarrow> 'a option \<Rightarrow> 'a graph" where
  "CompleteGraph_addVertex_for g vertex None = g"
| "CompleteGraph_addVertex_for g vertex (Some v) =
     (let g' = addEdge g v vertex 1
      in CompleteGraph_addVertex_for g' vertex (set_next (vertices g') v))"
  by pat_completeness auto
termination
proof (relation "measure (\<lambda>(g, vertex, it). case it of None \<Rightarrow> 0
          | Some v \<Rightarrow> Suc (card {x \<in> insert vertex (fset (vertices g)). v < x}))")
  show "wf (measure (\<lambda>(g, vertex, it). case it of None \<Rightarrow> 0
          | Some v \<Rightarrow> Suc (card {x \<in> insert vertex (fset (vertices g)). v < x})))"
    by simp
next
  fix g :: "'a graph" and vertex v g'
  assume g': "g' = addEdge g v vertex 1"
  show "((g', vertex, set_next (vertices g') v), (g, vertex, Some v))
        \<in> measure (\<lambda>(g, vertex, it). case it of None \<Rightarrow> 0
          | Some v \<Rightarrow> Suc (card {x \<in> insert vertex (fset (vertices g)). v < x}))"
  proof (cases "set_next (vertices g') v")
    case None
    then show ?thesis by simp
  next
    case (Some n)
    from set_next_Some [OF Some] have n: "n |\<in>| vertices g'" "v < n" by simp_all
    have fin: "finite {x \<in> insert vertex (fset (vertices g)). v < x}" by simp
    have "{x \<in> insert vertex (fset (vertices g')). n < x}
          \<subset> {x \<in> insert vertex (fset (vertices g)). v < x}"
      using n by (auto simp: g' vertices_addEdge)
    from psubset_card_mono [OF fin this] show ?thesis using Some by simp
  qed
qed

definition CompleteGraph_addVertex :: "'a::linorder graph \<Rightarrow> 'a \<Rightarrow> 'a graph" where
  "CompleteGraph_addVertex g vertex =
     (if vertex |\<in>| vertices g then g
      else addVertex (CompleteGraph_addVertex_for g vertex (set_begin (vertices g))) vertex)"

definition CompleteGraph :: "'a graph" where
  "CompleteGraph = Graph False False"

subsection \<open>Traversals\<close>

text \<open>
  Every vertex a traversal can push or recurse into is the target of some stored entry; that
  finite set bounds the work left and gives the termination measures below.
\<close>

definition targets :: "'a graph \<Rightarrow> 'a set" where
  "targets g = (\<Union>nbrs \<in> fmran' (adjList g). fst ` set nbrs)"

lemma finite_targets: "finite (targets g)"
  by (simp add: targets_def fmran'_alt_def)

lemma targets_lookup: "fmlookup (adjList g) v = Some nbrs \<Longrightarrow> fst ` set nbrs \<subseteq> targets g"
  by (auto simp: targets_def intro!: fmran'I)

text \<open>
  \<open>BFS\<close>: the \<open>while (!q.empty())\<close> loop is \<open>BFS_while\<close>, the
  \<open>for (i < levelSize)\<close> loop is \<open>BFS_level\<close> and the loop over the neighbours of
  \<open>current\<close> is \<open>BFS_neighbors\<close>. \<open>level\<close> is a \<open>map<T,int>\<close> only ever
  accessed with \<open>operator[]\<close>, that is, a function with default \<open>0\<close>. \<open>BFS_level\<close>
  never meets an empty queue (it pops \<open>q.size()\<close> elements); the branch is there for totality.
\<close>

record 'a bfs_state =
  traversalB :: "'a list"
  visitedB :: "'a set"
  queueB :: "'a list"
  parentB :: "'a \<rightharpoonup> 'a"
  levelB :: "'a \<Rightarrow> int"

fun BFS_neighbors :: "'a \<Rightarrow> ('a \<times> int) list \<Rightarrow> 'a bfs_state \<Rightarrow> 'a bfs_state" where
  "BFS_neighbors current [] st = st"
| "BFS_neighbors current (neighbor # rest) st =
     (if fst neighbor \<notin> visitedB st
      then BFS_neighbors current rest
             (st\<lparr>visitedB := insert (fst neighbor) (visitedB st),
                  parentB := (parentB st)(fst neighbor \<mapsto> current),
                  levelB := (levelB st)(fst neighbor := levelB st current + 1),
                  queueB := queueB st @ [fst neighbor]\<rparr>)
      else BFS_neighbors current rest st)"

fun BFS_level :: "'a graph \<Rightarrow> nat \<Rightarrow> 'a bfs_state \<Rightarrow> 'a bfs_state" where
  "BFS_level g 0 st = st"
| "BFS_level g (Suc i) st =
     (case queueB st of
        [] \<Rightarrow> st
      | current # q \<Rightarrow>
          let st1 = st\<lparr>queueB := q, traversalB := traversalB st @ [current]\<rparr>;
              st2 = (case fmlookup (adjList g) current of
                       None \<Rightarrow> st1
                     | Some nbrs \<Rightarrow> BFS_neighbors current nbrs st1)
          in BFS_level g i st2)"

definition frontier_measure :: "'a graph \<Rightarrow> 'a set \<Rightarrow> 'a list \<Rightarrow> nat" where
  "frontier_measure g visited q = 2 * card (targets g - visited) + length q"

lemma frontier_measure_push:
  assumes "n \<in> targets g" "n \<notin> visited"
  shows "frontier_measure g (insert n visited) (q @ [n]) < frontier_measure g visited q"
proof -
  have "n \<in> targets g - visited" using assms by simp
  then have "card (targets g - insert n visited) < card (targets g - visited)"
    by (intro psubset_card_mono) (auto simp: finite_targets)
  then show ?thesis by (simp add: frontier_measure_def)
qed

lemma BFS_neighbors_measure:
  "fst ` set nbrs \<subseteq> targets g \<Longrightarrow>
   frontier_measure g (visitedB (BFS_neighbors c nbrs st)) (queueB (BFS_neighbors c nbrs st))
     \<le> frontier_measure g (visitedB st) (queueB st)"
proof (induction nbrs arbitrary: st)
  case Nil
  then show ?case by simp
next
  case (Cons nb rest)
  show ?case
  proof (cases "fst nb \<in> visitedB st")
    case True
    then show ?thesis using Cons by simp
  next
    case False
    let ?st = "st\<lparr>visitedB := insert (fst nb) (visitedB st),
                  parentB := (parentB st)(fst nb \<mapsto> c),
                  levelB := (levelB st)(fst nb := levelB st c + 1),
                  queueB := queueB st @ [fst nb]\<rparr>"
    have "frontier_measure g (visitedB ?st) (queueB ?st) < frontier_measure g (visitedB st) (queueB st)"
      using frontier_measure_push [of "fst nb" g "visitedB st" "queueB st"] Cons.prems False by simp
    moreover have "frontier_measure g (visitedB (BFS_neighbors c rest ?st)) (queueB (BFS_neighbors c rest ?st))
        \<le> frontier_measure g (visitedB ?st) (queueB ?st)"
      using Cons.IH [of ?st] Cons.prems by simp
    ultimately show ?thesis using False by simp
  qed
qed

lemma BFS_level_measure:
  "frontier_measure g (visitedB (BFS_level g i st)) (queueB (BFS_level g i st))
     \<le> frontier_measure g (visitedB st) (queueB st)
   \<and> (0 < i \<and> queueB st \<noteq> [] \<longrightarrow>
      frontier_measure g (visitedB (BFS_level g i st)) (queueB (BFS_level g i st))
        < frontier_measure g (visitedB st) (queueB st))"
proof (induction i arbitrary: st)
  case 0
  then show ?case by simp
next
  case (Suc i)
  show ?case
  proof (cases "queueB st")
    case Nil
    then show ?thesis by simp
  next
    case (Cons current q)
    let ?st1 = "st\<lparr>queueB := q, traversalB := traversalB st @ [current]\<rparr>"
    let ?st2 = "case fmlookup (adjList g) current of
                       None \<Rightarrow> ?st1
                     | Some nbrs \<Rightarrow> BFS_neighbors current nbrs ?st1"
    have 1: "frontier_measure g (visitedB ?st1) (queueB ?st1) < frontier_measure g (visitedB st) (queueB st)"
      using Cons by (simp add: frontier_measure_def)
    have 2: "frontier_measure g (visitedB ?st2) (queueB ?st2) \<le> frontier_measure g (visitedB ?st1) (queueB ?st1)"
      using BFS_neighbors_measure [OF targets_lookup, of g current _ current ?st1]
      by (auto split: option.splits)
    have 3: "frontier_measure g (visitedB (BFS_level g i ?st2)) (queueB (BFS_level g i ?st2))
            \<le> frontier_measure g (visitedB ?st2) (queueB ?st2)"
      using Suc.IH [of ?st2] by simp
    have "BFS_level g (Suc i) st = BFS_level g i ?st2"
      using Cons by (simp add: Let_def)
    then show ?thesis using 1 2 3 by simp
  qed
qed

function BFS_while :: "'a graph \<Rightarrow> 'a bfs_state \<Rightarrow> 'a bfs_state" where
  "BFS_while g st =
     (if queueB st = [] then st
      else BFS_while g (BFS_level g (length (queueB st)) st))"
  by pat_completeness auto
termination
proof (relation "measure (\<lambda>(g, st). frontier_measure g (visitedB st) (queueB st))")
  show "wf (measure (\<lambda>(g, st). frontier_measure g (visitedB st) (queueB st)))" by simp
next
  fix g :: "'a graph" and st :: "'a bfs_state"
  assume "queueB st \<noteq> []"
  then show "((g, BFS_level g (length (queueB st)) st), (g, st))
      \<in> measure (\<lambda>(g, st). frontier_measure g (visitedB st) (queueB st))"
    using BFS_level_measure [of g "length (queueB st)" st] by simp
qed

definition BFS :: "'a graph \<Rightarrow> 'a \<Rightarrow> error + 'a list" where
  "BFS g start =
     (if start |\<notin>| vertices g then Inl invalid_argument
      else Inr (traversalB (BFS_while g
             \<lparr>traversalB = [], visitedB = {start}, queueB = [start],
              parentB = [start \<mapsto> start], levelB = (\<lambda>_. 0)(start := 0)\<rparr>)))"

text \<open>
  \<open>DFS\<close> and its recursive helper \<open>DFSUtil\<close>; \<open>DFSUtil_for\<close> is the loop over the
  neighbours inside \<open>DFSUtil\<close>. The state is the set of reference parameters of \<open>DFSUtil\<close>.
\<close>

record 'a dfs_state =
  visitedD :: "'a set"
  traversalD :: "'a list"
  discoveryTime :: "'a \<rightharpoonup> int"
  finishTime :: "'a \<rightharpoonup> int"
  parentD :: "'a \<rightharpoonup> 'a"
  timeD :: int

function DFSUtil :: "'a graph \<Rightarrow> 'a \<Rightarrow> 'a dfs_state \<Rightarrow> 'a dfs_state"
  and DFSUtil_for :: "'a graph \<Rightarrow> 'a \<Rightarrow> ('a \<times> int) list \<Rightarrow> 'a dfs_state \<Rightarrow> 'a dfs_state"
where
  "DFSUtil g vertex st =
     (let st1 = st\<lparr>visitedD := insert vertex (visitedD st),
                    traversalD := traversalD st @ [vertex],
                    timeD := timeD st + 1,
                    discoveryTime := (discoveryTime st)(vertex \<mapsto> timeD st + 1)\<rparr>;
          st2 = (case fmlookup (adjList g) vertex of
                   None \<Rightarrow> st1
                 | Some nbrs \<Rightarrow> DFSUtil_for g vertex nbrs st1)
      in st2\<lparr>timeD := timeD st2 + 1,
             finishTime := (finishTime st2)(vertex \<mapsto> timeD st2 + 1)\<rparr>)"
| "DFSUtil_for g vertex [] st = st"
| "DFSUtil_for g vertex (neighbor # rest) st =
     (if fst neighbor \<notin> visitedD st
      then DFSUtil_for g vertex rest
             (DFSUtil g (fst neighbor) (st\<lparr>parentD := (parentD st)(fst neighbor \<mapsto> vertex)\<rparr>))
      else DFSUtil_for g vertex rest st)"
  by pat_completeness auto


lemma DFSUtil_mono_dom:
  "DFSUtil_DFSUtil_for_dom (Inl (g, v, st)) \<Longrightarrow> visitedD st \<subseteq> visitedD (DFSUtil g v st)"
  "DFSUtil_DFSUtil_for_dom (Inr (g, v, nbrs, st)) \<Longrightarrow> visitedD st \<subseteq> visitedD (DFSUtil_for g v nbrs st)"
proof (induction rule: DFSUtil_DFSUtil_for.pinduct)
  case (1 g vertex st)
  then show ?case
    by (auto simp: DFSUtil.psimps Let_def split: option.splits)
next
  case (2 g vertex st)
  then show ?case by (simp add: DFSUtil_for.psimps)
next
  case (3 g vertex neighbor rest st)
  then show ?case
    by (auto simp: DFSUtil_for.psimps split: if_splits)
qed

definition dfs_measure :: "('a graph \<times> 'a \<times> 'a dfs_state) + ('a graph \<times> 'a \<times> ('a \<times> int) list \<times> 'a dfs_state) \<Rightarrow> nat \<times> nat \<times> nat" where
  "dfs_measure x = (case x of
       Inl (g, v, st) \<Rightarrow>
         (if v |\<in>| fmdom (adjList g)
          then (card (fmdom' (adjList g) - insert v (visitedD st)), 1, 0)
          else (0, 0, 0))
     | Inr (g, v, nbrs, st) \<Rightarrow> (card (fmdom' (adjList g) - visitedD st), 0, Suc (length nbrs)))"

termination DFSUtil
proof (relation "inv_image (less_than <*lex*> less_than <*lex*> less_than) dfs_measure")
  show "wf (inv_image (less_than <*lex*> less_than <*lex*> less_than) dfs_measure)"
    by (intro wf_inv_image wf_lex_prod wf_less_than)
next
  fix g :: "'a graph" and vertex and st :: "'a dfs_state" and x x2
  assume "fmlookup (adjList g) vertex = Some x2"
    "x = st\<lparr>visitedD := insert vertex (visitedD st),
                    traversalD := traversalD st @ [vertex],
                    timeD := timeD st + 1,
                    discoveryTime := (discoveryTime st)(vertex \<mapsto> timeD st + 1)\<rparr>"
  then show "(Inr (g, vertex, x2, x), Inl (g, vertex, st))
       \<in> inv_image (less_than <*lex*> less_than <*lex*> less_than) dfs_measure"
    by (auto simp: dfs_measure_def fmdomI)
next
  fix g :: "'a graph" and vertex and neighbor :: "'a \<times> int" and rest and st :: "'a dfs_state"
  assume n: "fst neighbor \<notin> visitedD st"
  show "(Inl (g, fst neighbor, st\<lparr>parentD := (parentD st)(fst neighbor \<mapsto> vertex)\<rparr>),
         Inr (g, vertex, neighbor # rest, st))
       \<in> inv_image (less_than <*lex*> less_than <*lex*> less_than) dfs_measure"
  proof (cases "fst neighbor |\<in>| fmdom (adjList g)")
    case True
    then have "fst neighbor \<in> fmdom' (adjList g) - visitedD st" using n
      by (simp add: fmdom'_alt_def)
    then have "card (fmdom' (adjList g) - insert (fst neighbor) (visitedD st))
               < card (fmdom' (adjList g) - visitedD st)"
      by (intro psubset_card_mono) auto
    then show ?thesis using True by (simp add: dfs_measure_def)
  next
    case False
    then show ?thesis by (auto simp: dfs_measure_def)
  qed
next
  fix g :: "'a graph" and vertex and neighbor :: "'a \<times> int" and rest and st :: "'a dfs_state"
  assume n: "fst neighbor \<notin> visitedD st"
    and d: "DFSUtil_DFSUtil_for_dom
             (Inl (g, fst neighbor, st\<lparr>parentD := (parentD st)(fst neighbor \<mapsto> vertex)\<rparr>))"
  from DFSUtil_mono_dom(1) [OF d]
  have "fmdom' (adjList g) - visitedD (DFSUtil g (fst neighbor) (st\<lparr>parentD := (parentD st)(fst neighbor \<mapsto> vertex)\<rparr>))
        \<subseteq> fmdom' (adjList g) - visitedD st" by auto
  then have "card (fmdom' (adjList g) - visitedD (DFSUtil g (fst neighbor) (st\<lparr>parentD := (parentD st)(fst neighbor \<mapsto> vertex)\<rparr>)))
        \<le> card (fmdom' (adjList g) - visitedD st)"
    by (intro card_mono) auto
  then show "(Inr (g, vertex, rest, DFSUtil g (fst neighbor) (st\<lparr>parentD := (parentD st)(fst neighbor \<mapsto> vertex)\<rparr>)),
         Inr (g, vertex, neighbor # rest, st))
       \<in> inv_image (less_than <*lex*> less_than <*lex*> less_than) dfs_measure"
    by (auto simp: dfs_measure_def)
next
  fix g :: "'a graph" and vertex and neighbor :: "'a \<times> int" and rest and st :: "'a dfs_state"
  show "(Inr (g, vertex, rest, st), Inr (g, vertex, neighbor # rest, st))
       \<in> inv_image (less_than <*lex*> less_than <*lex*> less_than) dfs_measure"
    by (simp add: dfs_measure_def)
qed

definition DFS :: "'a graph \<Rightarrow> 'a \<Rightarrow> error + 'a list" where
  "DFS g start =
     (if start |\<notin>| vertices g then Inl invalid_argument
      else Inr (traversalD (DFSUtil g start
             \<lparr>visitedD = {}, traversalD = [], discoveryTime = Map.empty, finishTime = Map.empty,
              parentD = [start \<mapsto> start], timeD = 0\<rparr>)))"


subsection \<open>getDistance\<close>

text \<open>
  An early \<open>return\<close> from inside a loop is a \<open>Return\<close> value of the loop function;
  \<open>Continue\<close> carries the state on. \<open>distance\<close> is a \<open>map<T,int>\<close> only ever
  accessed with \<open>operator[]\<close>: a function with default \<open>0\<close>.
\<close>

datatype ('r, 's) flow = Return 'r | Continue 's

record 'a dist_state =
  queueQ :: "'a list"
  visitedQ :: "'a set"
  distanceQ :: "'a \<Rightarrow> int"

fun getDistance_neighbors :: "'a \<Rightarrow> 'a \<Rightarrow> ('a \<times> int) list \<Rightarrow> 'a dist_state \<Rightarrow> (int, 'a dist_state) flow" where
  "getDistance_neighbors dest current [] st = Continue st"
| "getDistance_neighbors dest current (neighbor # rest) st =
     (if fst neighbor \<notin> visitedQ st
      then let st' = st\<lparr>visitedQ := insert (fst neighbor) (visitedQ st),
                        distanceQ := (distanceQ st)(fst neighbor := distanceQ st current + 1),
                        queueQ := queueQ st @ [fst neighbor]\<rparr>
           in if fst neighbor = dest then Return (distanceQ st' (fst neighbor))
              else getDistance_neighbors dest current rest st'
      else getDistance_neighbors dest current rest st)"

lemma getDistance_neighbors_measure:
  "fst ` set nbrs \<subseteq> targets g \<Longrightarrow> getDistance_neighbors dest c nbrs st = Continue st' \<Longrightarrow>
   frontier_measure g (visitedQ st') (queueQ st') \<le> frontier_measure g (visitedQ st) (queueQ st)"
proof (induction nbrs arbitrary: st)
  case Nil
  then show ?case by simp
next
  case (Cons nb rest)
  show ?case
  proof (cases "fst nb \<in> visitedQ st")
    case True
    then show ?thesis using Cons by simp
  next
    case False
    let ?st = "st\<lparr>visitedQ := insert (fst nb) (visitedQ st),
                  distanceQ := (distanceQ st)(fst nb := distanceQ st c + 1),
                  queueQ := queueQ st @ [fst nb]\<rparr>"
    have "frontier_measure g (visitedQ ?st) (queueQ ?st) < frontier_measure g (visitedQ st) (queueQ st)"
      using frontier_measure_push [of "fst nb" g "visitedQ st" "queueQ st"] Cons.prems False by simp
    moreover have "getDistance_neighbors dest c rest ?st = Continue st'"
      using Cons.prems(2) False by (simp add: Let_def split: if_splits)
    then have "frontier_measure g (visitedQ st') (queueQ st') \<le> frontier_measure g (visitedQ ?st) (queueQ ?st)"
      using Cons.IH [of ?st] Cons.prems(1) by simp
    ultimately show ?thesis by simp
  qed
qed

function getDistance_while :: "'a graph \<Rightarrow> 'a \<Rightarrow> 'a dist_state \<Rightarrow> int" where
  "getDistance_while g dest st =
     (case queueQ st of
        [] \<Rightarrow> - 1
      | current # q \<Rightarrow>
          (case fmlookup (adjList g) current of
             None \<Rightarrow> getDistance_while g dest (st\<lparr>queueQ := q\<rparr>)
           | Some nbrs \<Rightarrow>
               (case getDistance_neighbors dest current nbrs (st\<lparr>queueQ := q\<rparr>) of
                  Return d \<Rightarrow> d
                | Continue st' \<Rightarrow> getDistance_while g dest st')))"
  by pat_completeness auto
termination
proof (relation "measure (\<lambda>(g, dest, st). frontier_measure g (visitedQ st) (queueQ st))")
  show "wf (measure (\<lambda>(g, dest, st). frontier_measure g (visitedQ st) (queueQ st)))" by simp
next
  fix g :: "'a graph" and dest :: 'a and st :: "'a dist_state" and current q
  assume "queueQ st = current # q"
  then show "((g, dest, st\<lparr>queueQ := q\<rparr>), (g, dest, st))
      \<in> measure (\<lambda>(g, dest, st). frontier_measure g (visitedQ st) (queueQ st))"
    by (simp add: frontier_measure_def)
next
  fix g :: "'a graph" and dest :: 'a and st :: "'a dist_state" and current q nbrs st'
  assume q: "queueQ st = current # q" and l: "fmlookup (adjList g) current = Some nbrs"
    and c: "getDistance_neighbors dest current nbrs (st\<lparr>queueQ := q\<rparr>) = Continue st'"
  from getDistance_neighbors_measure [OF targets_lookup [OF l] c]
  show "((g, dest, st'), (g, dest, st))
      \<in> measure (\<lambda>(g, dest, st). frontier_measure g (visitedQ st) (queueQ st))"
    using q by (simp add: frontier_measure_def)
qed

definition getDistance :: "'a graph \<Rightarrow> 'a \<Rightarrow> 'a \<Rightarrow> error + int" where
  "getDistance g src dest =
     (if src |\<notin>| vertices g \<or> dest |\<notin>| vertices g then Inl invalid_argument
      else if src = dest then Inr 0
      else Inr (getDistance_while g dest
                  \<lparr>queueQ = [src], visitedQ = {src}, distanceQ = (\<lambda>_. 0)(src := 0)\<rparr>))"


subsection \<open>getGirth\<close>

text \<open>
  \<open>distance\<close> is a \<open>map<T,int>\<close> that \<open>getGirth\<close> both searches (\<open>find\<close>) and
  indexes: \<open>m[k]\<close> reads \<open>map_at m k\<close> and leaves the map \<open>map_touch m k\<close>, with the
  key inserted at \<open>0\<close> when it was absent.
\<close>

definition map_at :: "('a \<rightharpoonup> int) \<Rightarrow> 'a \<Rightarrow> int" where
  "map_at m k = (case m k of None \<Rightarrow> 0 | Some x \<Rightarrow> x)"

definition map_touch :: "('a \<rightharpoonup> int) \<Rightarrow> 'a \<Rightarrow> ('a \<rightharpoonup> int)" where
  "map_touch m k = (case m k of None \<Rightarrow> m(k \<mapsto> 0) | Some x \<Rightarrow> m)"

definition INT_MAX :: int where
  "INT_MAX = 2147483647"

record 'a girth_state =
  queueG :: "('a \<times> 'a) list"
  distanceG :: "'a \<rightharpoonup> int"
  girthG :: int

fun getGirth_start :: "'a \<Rightarrow> ('a \<times> int) list \<Rightarrow> 'a girth_state \<Rightarrow> 'a girth_state" where
  "getGirth_start start [] st = st"
| "getGirth_start start (neighbor # rest) st =
     getGirth_start start rest
       (st\<lparr>queueG := queueG st @ [(fst neighbor, start)],
            distanceG := (distanceG st)(fst neighbor \<mapsto> 1)\<rparr>)"

fun getGirth_neighbors :: "'a \<Rightarrow> 'a \<Rightarrow> ('a \<times> int) list \<Rightarrow> 'a girth_state \<Rightarrow> 'a girth_state" where
  "getGirth_neighbors current parent [] st = st"
| "getGirth_neighbors current parent (neighbor # rest) st =
     (if distanceG st (fst neighbor) = None
      then getGirth_neighbors current parent rest
             (st\<lparr>distanceG := (map_touch (distanceG st) current)
                                  (fst neighbor \<mapsto> map_at (distanceG st) current + 1),
                  queueG := queueG st @ [(fst neighbor, current)]\<rparr>)
      else if fst neighbor \<noteq> parent
      then let cycleLength = map_at (distanceG st) current + map_at (distanceG st) (fst neighbor) + 1
           in getGirth_neighbors current parent rest
                (st\<lparr>distanceG := map_touch (map_touch (distanceG st) current) (fst neighbor),
                     girthG := min (girthG st) cycleLength\<rparr>)
      else getGirth_neighbors current parent rest st)"

definition girth_measure :: "'a graph \<Rightarrow> 'a girth_state \<Rightarrow> nat" where
  "girth_measure g st = 2 * card (targets g - dom (distanceG st)) + length (queueG st)"

lemma dom_map_touch: "dom (map_touch m k) = insert k (dom m)"
  by (auto simp: map_touch_def split: option.splits)

lemma getGirth_neighbors_measure:
  "fst ` set nbrs \<subseteq> targets g \<Longrightarrow>
   girth_measure g (getGirth_neighbors c p nbrs st) \<le> girth_measure g st"
proof (induction nbrs arbitrary: st)
  case Nil
  then show ?case by simp
next
  case (Cons nb rest)
  have fin: "finite (targets g)" by (rule finite_targets)
  show ?case
  proof (cases "distanceG st (fst nb) = None")
    case True
    let ?st = "st\<lparr>distanceG := (map_touch (distanceG st) c)(fst nb \<mapsto> map_at (distanceG st) c + 1),
                  queueG := queueG st @ [(fst nb, c)]\<rparr>"
    from True Cons.prems have "fst nb \<in> targets g - dom (distanceG st)" by auto
    moreover have "fst nb \<notin> targets g - dom (distanceG ?st)" by simp
    moreover have "targets g - dom (distanceG ?st) \<subseteq> targets g - dom (distanceG st)"
      by (auto simp: dom_map_touch)
    ultimately have "targets g - dom (distanceG ?st) \<subset> targets g - dom (distanceG st)" by blast
    then have "card (targets g - dom (distanceG ?st)) < card (targets g - dom (distanceG st))"
      by (intro psubset_card_mono) (auto simp: fin)
    then have "girth_measure g ?st \<le> girth_measure g st" by (simp add: girth_measure_def)
    moreover have "girth_measure g (getGirth_neighbors c p rest ?st) \<le> girth_measure g ?st"
      using Cons.IH [of ?st] Cons.prems by simp
    ultimately show ?thesis using True by simp
  next
    case False
    show ?thesis
    proof (cases "fst nb \<noteq> p")
      case True
      let ?st = "st\<lparr>distanceG := map_touch (map_touch (distanceG st) c) (fst nb),
                     girthG := min (girthG st) (map_at (distanceG st) c + map_at (distanceG st) (fst nb) + 1)\<rparr>"
      have "targets g - dom (distanceG ?st) \<subseteq> targets g - dom (distanceG st)"
        by (auto simp: dom_map_touch)
      then have "card (targets g - dom (distanceG ?st)) \<le> card (targets g - dom (distanceG st))"
        by (intro card_mono) (auto simp: fin)
      then have "girth_measure g ?st \<le> girth_measure g st" by (simp add: girth_measure_def)
      moreover have "girth_measure g (getGirth_neighbors c p rest ?st) \<le> girth_measure g ?st"
        using Cons.IH [of ?st] Cons.prems by simp
      ultimately show ?thesis using False True by (auto simp: Let_def)
    next
      case eq: False
      then show ?thesis using False Cons by auto
    qed
  qed
qed

function getGirth_while :: "'a graph \<Rightarrow> 'a girth_state \<Rightarrow> 'a girth_state" where
  "getGirth_while g st =
     (case queueG st of
        [] \<Rightarrow> st
      | (current, parent) # q \<Rightarrow>
          (case fmlookup (adjList g) current of
             None \<Rightarrow> getGirth_while g (st\<lparr>queueG := q\<rparr>)
           | Some nbrs \<Rightarrow> getGirth_while g (getGirth_neighbors current parent nbrs (st\<lparr>queueG := q\<rparr>))))"
  by pat_completeness auto
termination
proof (relation "measure (\<lambda>(g, st). girth_measure g st)")
  show "wf (measure (\<lambda>(g, st). girth_measure g st))" by simp
next
  fix g :: "'a graph" and st :: "'a girth_state" and x q current parent
  assume "queueG st = x # q"
  then show "((g, st\<lparr>queueG := q\<rparr>), (g, st)) \<in> measure (\<lambda>(g, st). girth_measure g st)"
    by (simp add: girth_measure_def)
next
  fix g :: "'a graph" and st :: "'a girth_state" and x q current parent nbrs
  assume q: "queueG st = x # q" and l: "fmlookup (adjList g) current = Some nbrs"
  have "girth_measure g (getGirth_neighbors current parent nbrs (st\<lparr>queueG := q\<rparr>))
        \<le> girth_measure g (st\<lparr>queueG := q\<rparr>)"
    by (rule getGirth_neighbors_measure [OF targets_lookup [OF l]])
  also have "\<dots> < girth_measure g st" using q by (simp add: girth_measure_def)
  finally show "((g, getGirth_neighbors current parent nbrs (st\<lparr>queueG := q\<rparr>)), (g, st))
      \<in> measure (\<lambda>(g, st). girth_measure g st)"
    by simp
qed

definition getGirth_from :: "'a graph \<Rightarrow> 'a \<Rightarrow> int \<Rightarrow> int" where
  "getGirth_from g start girth =
     (let st0 = \<lparr>queueG = [], distanceG = [start \<mapsto> 0], girthG = girth\<rparr>;
          st1 = (case fmlookup (adjList g) start of
                   None \<Rightarrow> st0
                 | Some nbrs \<Rightarrow> getGirth_start start nbrs st0)
      in girthG (getGirth_while g st1))"

definition getGirth :: "'a::linorder graph \<Rightarrow> int" where
  "getGirth g =
     (if vertices g = {||} then - 1
      else let girth = fold (getGirth_from g) (sorted_list_of_fset (vertices g)) INT_MAX
           in if girth = INT_MAX then - 1 else girth)"

subsection \<open>DirectedAcyclicGraph\<close>

text \<open>
  \<open>hasCycleDFS\<close> threads the two sets it takes by reference; \<open>hasCycleDFS_for\<close> is its loop
  over \<open>adjList.at(vertex)\<close>, and \<open>at\<close> throws \<open>out_of_range\<close> on a missing key.
  \<open>DirectedAcyclicGraph_scan\<close> is the loop of \<open>addEdge\<close> over the vertex set. An overriding
  \<open>addEdge\<close> returns the exception it throws, if any, and the graph as the call leaves it.
\<close>

function hasCycleDFS :: "'a graph \<Rightarrow> 'a \<Rightarrow> 'a set \<times> 'a set \<Rightarrow> error + bool \<times> 'a set \<times> 'a set"
  and hasCycleDFS_for :: "'a graph \<Rightarrow> ('a \<times> int) list \<Rightarrow> 'a set \<times> 'a set \<Rightarrow> error + bool \<times> 'a set \<times> 'a set"
where
  "hasCycleDFS g vertex (visited, recStack) =
     (case fmlookup (adjList g) vertex of
        None \<Rightarrow> Inl out_of_range
      | Some nbrs \<Rightarrow>
          (case hasCycleDFS_for g nbrs (insert vertex visited, insert vertex recStack) of
             Inl e \<Rightarrow> Inl e
           | Inr r \<Rightarrow>
               if fst r then Inr r
               else Inr (False, fst (snd r), snd (snd r) - {vertex})))"
| "hasCycleDFS_for g [] s = Inr (False, s)"
| "hasCycleDFS_for g (neighbor # rest) (visited, recStack) =
     (if fst neighbor \<notin> visited
      then (case hasCycleDFS g (fst neighbor) (visited, recStack) of
              Inl e \<Rightarrow> Inl e
            | Inr r \<Rightarrow> if fst r then Inr r else hasCycleDFS_for g rest (snd r))
      else if fst neighbor \<in> recStack then Inr (True, visited, recStack)
      else hasCycleDFS_for g rest (visited, recStack))"
  by pat_completeness auto

lemma hasCycleDFS_mono_dom:
  "hasCycleDFS_hasCycleDFS_for_dom (Inl (g, v, s)) \<Longrightarrow>
     hasCycleDFS g v s = Inr r \<Longrightarrow> fst s \<subseteq> fst (snd r)"
  "hasCycleDFS_hasCycleDFS_for_dom (Inr (g, nbrs, s)) \<Longrightarrow>
     hasCycleDFS_for g nbrs s = Inr r \<Longrightarrow> fst s \<subseteq> fst (snd r)"
proof (induction arbitrary: r and r rule: hasCycleDFS_hasCycleDFS_for.pinduct)
  case (1 g vertex visited recStack)
  from "1.prems" "1.hyps" obtain nbrs r' where
    l: "fmlookup (adjList g) vertex = Some nbrs"
    and r': "hasCycleDFS_for g nbrs (insert vertex visited, insert vertex recStack) = Inr r'"
    and r: "r = (if fst r' then r' else (False, fst (snd r'), snd (snd r') - {vertex}))"
    by (auto simp: hasCycleDFS.psimps split: option.splits sum.splits if_splits)
  from "1.IH" [OF l r'] have "insert vertex visited \<subseteq> fst (snd r')" by simp
  then show ?case using r by (auto split: if_splits)
next
  case (2 g s)
  then show ?case by (auto simp: hasCycleDFS_for.psimps)
next
  case (3 g neighbor rest visited recStack)
  show ?case
  proof (cases "fst neighbor \<notin> visited")
    case True
    with "3.prems" "3.hyps" obtain r' where
      r': "hasCycleDFS g (fst neighbor) (visited, recStack) = Inr r'"
      and r: "if fst r' then r = r' else hasCycleDFS_for g rest (snd r') = Inr r"
      by (auto simp: hasCycleDFS_for.psimps split: sum.splits if_splits)
    from "3.IH"(1) [OF True r'] have a: "visited \<subseteq> fst (snd r')" by simp
    show ?thesis
    proof (cases "fst r'")
      case True
      with r a show ?thesis by simp
    next
      case False
      with r have "hasCycleDFS_for g rest (snd r') = Inr r" by simp
      from "3.IH"(2) [OF True r' False this] a show ?thesis by auto
    qed
  next
    case False
    with "3.prems" "3.hyps" "3.IH"(3) show ?thesis
      by (auto simp: hasCycleDFS_for.psimps split: if_splits)
  qed
qed

definition hasCycleDFS_measure ::
  "('a graph \<times> 'a \<times> 'a set \<times> 'a set) + ('a graph \<times> ('a \<times> int) list \<times> 'a set \<times> 'a set) \<Rightarrow> nat \<times> nat \<times> nat" where
  "hasCycleDFS_measure x = (case x of
       Inl (g, v, visited, recStack) \<Rightarrow>
         (if v |\<in>| fmdom (adjList g)
          then (card (fmdom' (adjList g) - insert v visited), 1, 0)
          else (0, 0, 0))
     | Inr (g, nbrs, visited, recStack) \<Rightarrow> (card (fmdom' (adjList g) - visited), 0, Suc (length nbrs)))"

termination hasCycleDFS
proof (relation "inv_image (less_than <*lex*> less_than <*lex*> less_than) hasCycleDFS_measure")
  show "wf (inv_image (less_than <*lex*> less_than <*lex*> less_than) hasCycleDFS_measure)"
    by (intro wf_inv_image wf_lex_prod wf_less_than)
next
  fix g :: "'a graph" and vertex :: 'a and visited recStack :: "'a set" and nbrs
  assume "fmlookup (adjList g) vertex = Some nbrs"
  then show "(Inr (g, nbrs, insert vertex visited, insert vertex recStack), Inl (g, vertex, visited, recStack))
       \<in> inv_image (less_than <*lex*> less_than <*lex*> less_than) hasCycleDFS_measure"
    by (auto simp: hasCycleDFS_measure_def fmdomI)
next
  fix g :: "'a graph" and neighbor :: "'a \<times> int" and rest and visited recStack :: "'a set"
  assume n: "fst neighbor \<notin> visited"
  show "(Inl (g, fst neighbor, visited, recStack), Inr (g, neighbor # rest, visited, recStack))
       \<in> inv_image (less_than <*lex*> less_than <*lex*> less_than) hasCycleDFS_measure"
  proof (cases "fst neighbor |\<in>| fmdom (adjList g)")
    case True
    then have "fst neighbor \<in> fmdom' (adjList g) - visited" using n
      by (simp add: fmdom'_alt_def)
    then have "card (fmdom' (adjList g) - insert (fst neighbor) visited)
               < card (fmdom' (adjList g) - visited)"
      by (intro psubset_card_mono) auto
    then show ?thesis using True by (simp add: hasCycleDFS_measure_def)
  next
    case False
    then show ?thesis by (auto simp: hasCycleDFS_measure_def)
  qed
next
  fix g :: "'a graph" and neighbor :: "'a \<times> int" and rest and visited recStack :: "'a set" and r
  assume n: "fst neighbor \<notin> visited"
    and r: "hasCycleDFS g (fst neighbor) (visited, recStack) = Inr r"
    and d: "hasCycleDFS_hasCycleDFS_for_dom (Inl (g, fst neighbor, visited, recStack))"
  from hasCycleDFS_mono_dom(1) [OF d r]
  have "fmdom' (adjList g) - fst (snd r) \<subseteq> fmdom' (adjList g) - visited" by auto
  then have "card (fmdom' (adjList g) - fst (snd r)) \<le> card (fmdom' (adjList g) - visited)"
    by (intro card_mono) auto
  then show "(Inr (g, rest, snd r), Inr (g, neighbor # rest, visited, recStack))
       \<in> inv_image (less_than <*lex*> less_than <*lex*> less_than) hasCycleDFS_measure"
    by (cases r) (auto simp: hasCycleDFS_measure_def)
next
  fix g :: "'a graph" and neighbor :: "'a \<times> int" and rest and visited recStack :: "'a set"
  show "(Inr (g, rest, visited, recStack), Inr (g, neighbor # rest, visited, recStack))
       \<in> inv_image (less_than <*lex*> less_than <*lex*> less_than) hasCycleDFS_measure"
    by (simp add: hasCycleDFS_measure_def)
qed

fun DirectedAcyclicGraph_scan :: "'a graph \<Rightarrow> 'a list \<Rightarrow> 'a set \<times> 'a set \<Rightarrow> error + bool" where
  "DirectedAcyclicGraph_scan g [] s = Inr False"
| "DirectedAcyclicGraph_scan g (vertex # rest) (visited, recStack) =
     (if vertex \<notin> visited
      then (case hasCycleDFS g vertex (visited, recStack) of
              Inl e \<Rightarrow> Inl e
            | Inr r \<Rightarrow> if fst r then Inr True else DirectedAcyclicGraph_scan g rest (snd r))
      else DirectedAcyclicGraph_scan g rest (visited, recStack))"

definition DirectedAcyclicGraph :: "'a graph" where
  "DirectedAcyclicGraph = Graph True False"

definition DirectedAcyclicGraph_addEdge :: "'a::linorder graph \<Rightarrow> 'a \<Rightarrow> 'a \<Rightarrow> int \<Rightarrow> error option \<times> 'a graph" where
  "DirectedAcyclicGraph_addEdge g src dest weight =
     (let g1 = addEdge g src dest weight
      in case DirectedAcyclicGraph_scan g1 (sorted_list_of_fset (vertices g1)) ({}, {}) of
           Inl e \<Rightarrow> (Some e, g1)
         | Inr True \<Rightarrow> (Some logic_error, g1\<lparr>adjList := erase_target (adjList g1) src dest\<rparr>)
         | Inr False \<Rightarrow> (None, g1))"


subsection \<open>BipartiteGraph\<close>

text \<open>
  \<open>isBipartiteCheck\<close>: \<open>isBipartiteCheck_starts\<close> is the loop over the vertex set,
  \<open>isBipartiteCheck_while\<close> the queue loop and \<open>isBipartiteCheck_neighbors\<close> the loop over
  \<open>adjList.at(vertex)\<close>, which returns \<open>false\<close> from inside.
\<close>


fun isBipartiteCheck_neighbors :: "'a \<Rightarrow> ('a \<times> int) list \<Rightarrow> 'a list \<times> ('a \<rightharpoonup> int) \<Rightarrow> (bool, 'a list \<times> ('a \<rightharpoonup> int)) flow" where
  "isBipartiteCheck_neighbors vertex [] s = Continue s"
| "isBipartiteCheck_neighbors vertex (neighbor # rest) (q, color) =
     (if color (fst neighbor) = None
      then isBipartiteCheck_neighbors vertex rest
             (q @ [fst neighbor],
              (map_touch color vertex)(fst neighbor \<mapsto> 1 - map_at color vertex))
      else if map_at color (fst neighbor) = map_at color vertex then Return False
      else isBipartiteCheck_neighbors vertex rest
             (q, map_touch (map_touch color (fst neighbor)) vertex))"

definition color_measure :: "'a graph \<Rightarrow> 'a list \<times> ('a \<rightharpoonup> int) \<Rightarrow> nat" where
  "color_measure g s = 2 * card (targets g - dom (snd s)) + length (fst s)"

lemma isBipartiteCheck_neighbors_measure:
  "fst ` set nbrs \<subseteq> targets g \<Longrightarrow> isBipartiteCheck_neighbors v nbrs s = Continue s' \<Longrightarrow>
   color_measure g s' \<le> color_measure g s"
proof (induction nbrs arbitrary: s)
  case Nil
  then show ?case by simp
next
  case (Cons nb rest)
  obtain q color where s: "s = (q, color)" by (cases s)
  have fin: "finite (targets g)" by (rule finite_targets)
  show ?case
  proof (cases "color (fst nb) = None")
    case True
    let ?s = "(q @ [fst nb], (map_touch color v)(fst nb \<mapsto> 1 - map_at color v))"
    from True Cons.prems have "fst nb \<in> targets g - dom color" by auto
    moreover have "fst nb \<notin> targets g - dom (snd ?s)" by simp
    moreover have "targets g - dom (snd ?s) \<subseteq> targets g - dom color"
      by (auto simp: dom_map_touch)
    ultimately have "targets g - dom (snd ?s) \<subset> targets g - dom color" by blast
    then have "card (targets g - dom (snd ?s)) < card (targets g - dom color)"
      by (intro psubset_card_mono) (auto simp: fin)
    then have "color_measure g ?s \<le> color_measure g s" by (simp add: color_measure_def s)
    moreover have "isBipartiteCheck_neighbors v rest ?s = Continue s'"
      using Cons.prems(2) True by (simp add: s)
    then have "color_measure g s' \<le> color_measure g ?s"
      using Cons.IH [of ?s] Cons.prems(1) by simp
    ultimately show ?thesis by simp
  next
    case False
    let ?s = "(q, map_touch (map_touch color (fst nb)) v)"
    have "targets g - dom (snd ?s) \<subseteq> targets g - dom color"
      by (auto simp: dom_map_touch)
    then have "card (targets g - dom (snd ?s)) \<le> card (targets g - dom color)"
      by (intro card_mono) (auto simp: fin)
    then have "color_measure g ?s \<le> color_measure g s" by (simp add: color_measure_def s)
    moreover have "isBipartiteCheck_neighbors v rest ?s = Continue s'"
      using Cons.prems(2) False by (auto simp: s split: if_splits)
    then have "color_measure g s' \<le> color_measure g ?s"
      using Cons.IH [of ?s] Cons.prems(1) by simp
    ultimately show ?thesis by simp
  qed
qed

function isBipartiteCheck_while :: "'a graph \<Rightarrow> 'a list \<times> ('a \<rightharpoonup> int) \<Rightarrow> error + (bool, 'a \<rightharpoonup> int) flow" where
  "isBipartiteCheck_while g (q, color) =
     (case q of
        [] \<Rightarrow> Inr (Continue color)
      | vertex # q' \<Rightarrow>
          (case fmlookup (adjList g) vertex of
             None \<Rightarrow> Inl out_of_range
           | Some nbrs \<Rightarrow>
               (case isBipartiteCheck_neighbors vertex nbrs (q', color) of
                  Return b \<Rightarrow> Inr (Return b)
                | Continue s \<Rightarrow> isBipartiteCheck_while g s)))"
  by pat_completeness auto
termination
proof (relation "measure (\<lambda>(g, s). color_measure g s)")
  show "wf (measure (\<lambda>(g, s). color_measure g s))" by simp
next
  fix g :: "'a graph" and q :: "'a list" and color :: "'a \<rightharpoonup> int" and vertex q' nbrs s
  assume q: "q = vertex # q'" and l: "fmlookup (adjList g) vertex = Some nbrs"
    and c: "isBipartiteCheck_neighbors vertex nbrs (q', color) = Continue s"
  from isBipartiteCheck_neighbors_measure [OF targets_lookup [OF l] c]
  show "((g, s), (g, q, color)) \<in> measure (\<lambda>(g, s). color_measure g s)"
    using q by (simp add: color_measure_def)
qed

fun isBipartiteCheck_starts :: "'a graph \<Rightarrow> 'a list \<Rightarrow> ('a \<rightharpoonup> int) \<Rightarrow> error + bool" where
  "isBipartiteCheck_starts g [] color = Inr True"
| "isBipartiteCheck_starts g (start # rest) color =
     (if color start \<noteq> None then isBipartiteCheck_starts g rest color
      else (case isBipartiteCheck_while g ([start], color(start \<mapsto> 0)) of
              Inl e \<Rightarrow> Inl e
            | Inr (Return b) \<Rightarrow> Inr b
            | Inr (Continue color') \<Rightarrow> isBipartiteCheck_starts g rest color'))"

definition isBipartiteCheck :: "'a::linorder graph \<Rightarrow> error + bool" where
  "isBipartiteCheck g =
     (if vertices g = {||} then Inr True
      else isBipartiteCheck_starts g (sorted_list_of_fset (vertices g)) Map.empty)"

definition BipartiteGraph :: "'a graph" where
  "BipartiteGraph = Graph False False"

definition BipartiteGraph_addEdge :: "'a::linorder graph \<Rightarrow> 'a \<Rightarrow> 'a \<Rightarrow> int \<Rightarrow> error option \<times> 'a graph" where
  "BipartiteGraph_addEdge g src dest weight =
     (let g1 = addEdge g src dest weight
      in case isBipartiteCheck g1 of
           Inl e \<Rightarrow> (Some e, g1)
         | Inr True \<Rightarrow> (None, g1)
         | Inr False \<Rightarrow>
             (let g2 = g1\<lparr>adjList := erase_target (adjList g1) src dest\<rparr>;
                  g3 = g2\<lparr>adjList := erase_target (adjList g2) dest src\<rparr>
              in (Some logic_error, g3)))"

subsection \<open>NullGraph and TrivialGraph\<close>

definition NullGraph :: "'a graph" where
  "NullGraph = Graph False False"

definition NullGraph_addEdge :: "'a graph \<Rightarrow> 'a \<Rightarrow> 'a \<Rightarrow> int \<Rightarrow> error option \<times> 'a graph" where
  "NullGraph_addEdge g src dest weight = (Some logic_error, g)"

definition TrivialGraph :: "'a \<Rightarrow> 'a graph" where
  "TrivialGraph vertex = addVertex (Graph False False) vertex"

definition TrivialGraph_addEdge :: "'a graph \<Rightarrow> 'a \<Rightarrow> 'a \<Rightarrow> int \<Rightarrow> error option \<times> 'a graph" where
  "TrivialGraph_addEdge g src dest weight = (Some logic_error, g)"

text \<open>The base class's \<open>addEdge\<close> never throws.\<close>

definition Graph_addEdge :: "'a graph \<Rightarrow> 'a \<Rightarrow> 'a \<Rightarrow> int \<Rightarrow> error option \<times> 'a graph" where
  "Graph_addEdge g src dest weight = (None, addEdge g src dest weight)"

subsection \<open>join and operator+\<close>

text \<open>
  \<open>join\<close> calls the virtual \<open>addEdge\<close>: the model takes the override of the object's
  dynamic type as the parameter \<open>add\<close>. An exception thrown by it leaves \<open>join\<close> at once,
  with the graph as it is then. \<open>other\<close> is read only; when it is the object itself every
  edge is found present and nothing is added, so reading it as a value is faithful.
\<close>

fun join_neighbors ::
  "('a::linorder graph \<Rightarrow> 'a \<Rightarrow> 'a \<Rightarrow> int \<Rightarrow> error option \<times> 'a graph) \<Rightarrow> 'a \<Rightarrow> ('a \<times> int) list \<Rightarrow> 'a graph \<Rightarrow> error option \<times> 'a graph" where
  "join_neighbors add src [] g = (None, g)"
| "join_neighbors add src (neighbor # rest) g =
     (let dest = fst neighbor; weight = snd neighbor;
          exists = (case fmlookup (adjList g) src of
                      None \<Rightarrow> False
                    | Some es \<Rightarrow> \<exists>existing \<in> set es. fst existing = dest)
      in if \<not> exists \<and> (isDirected g \<or> src < dest)
         then (case add g src dest weight of
                 (Some e, g') \<Rightarrow> (Some e, g')
               | (None, g') \<Rightarrow> join_neighbors add src rest g')
         else join_neighbors add src rest g)"

fun join_entries ::
  "('a::linorder graph \<Rightarrow> 'a \<Rightarrow> 'a \<Rightarrow> int \<Rightarrow> error option \<times> 'a graph) \<Rightarrow> ('a \<times> ('a \<times> int) list) list \<Rightarrow> 'a graph \<Rightarrow> error option \<times> 'a graph" where
  "join_entries add [] g = (None, g)"
| "join_entries add (pair # rest) g =
     (case join_neighbors add (fst pair) (snd pair) g of
        (Some e, g') \<Rightarrow> (Some e, g')
      | (None, g') \<Rightarrow> join_entries add rest g')"

definition join ::
  "('a::linorder graph \<Rightarrow> 'a \<Rightarrow> 'a \<Rightarrow> int \<Rightarrow> error option \<times> 'a graph) \<Rightarrow> 'a graph \<Rightarrow> 'a graph \<Rightarrow> error option \<times> 'a graph" where
  "join add g other =
     (if isDirected g \<noteq> isDirected other then (Some logic_error, g)
      else if isWeighted g \<noteq> isWeighted other then (Some logic_error, g)
      else join_entries add (entries (adjList other))
             (fold (\<lambda>vertex g. addVertex g vertex) (sorted_list_of_fset (vertices other)) g))"

text \<open>
  \<open>operator+\<close> is a \<open>const\<close> member taking a \<open>const\<close> reference: it builds \<open>result\<close>, a
  plain \<open>Graph<T>\<close> whatever the operands' dynamic types, and returns it or the exception
  of \<open>join\<close>.
\<close>

fun plus_neighbors :: "'a::linorder graph \<Rightarrow> 'a \<Rightarrow> ('a \<times> int) list \<Rightarrow> 'a graph \<Rightarrow> 'a graph" where
  "plus_neighbors this src [] result = result"
| "plus_neighbors this src (neighbor # rest) result =
     (if isDirected this \<or> src < fst neighbor
      then plus_neighbors this src rest (addEdge result src (fst neighbor) (snd neighbor))
      else plus_neighbors this src rest result)"

definition operator_plus :: "'a::linorder graph \<Rightarrow> 'a graph \<Rightarrow> error + 'a graph" where
  "operator_plus this other =
     (let result0 = Graph (isDirected this) (isWeighted this);
          result1 = fold (\<lambda>vertex g. addVertex g vertex) (sorted_list_of_fset (vertices this)) result0;
          result2 = fold (\<lambda>pair g. plus_neighbors this (fst pair) (snd pair) g) (entries (adjList this)) result1
      in case join Graph_addEdge result2 other of
           (Some e, _) \<Rightarrow> Inl e
         | (None, result) \<Rightarrow> Inr result)"

subsection \<open>Every object of the hierarchy and its public mutators\<close>

datatype 'a ctor =
    New_Graph bool bool
  | New_NullGraph
  | New_TrivialGraph 'a
  | New_UndirectedGraph
  | New_DirectedGraph
  | New_ConnectedGraph
  | New_DisconnectedGraph
  | New_CompleteGraph
  | New_CyclicGraph bool
  | New_DirectedAcyclicGraph
  | New_BipartiteGraph
  | New_WeightedGraph bool

fun construct :: "'a ctor \<Rightarrow> 'a graph" where
  "construct (New_Graph directed weighted) = Graph directed weighted"
| "construct New_NullGraph = NullGraph"
| "construct (New_TrivialGraph vertex) = TrivialGraph vertex"
| "construct New_UndirectedGraph = Graph False False"
| "construct New_DirectedGraph = Graph True False"
| "construct New_ConnectedGraph = Graph False False"
| "construct New_DisconnectedGraph = Graph False False"
| "construct New_CompleteGraph = CompleteGraph"
| "construct (New_CyclicGraph directed) = Graph directed False"
| "construct New_DirectedAcyclicGraph = DirectedAcyclicGraph"
| "construct New_BipartiteGraph = BipartiteGraph"
| "construct (New_WeightedGraph directed) = Graph directed True"

text \<open>The \<open>addEdge\<close> a virtual call reaches on an object built by the given constructor.\<close>

fun virtual_addEdge :: "'a::linorder ctor \<Rightarrow> 'a graph \<Rightarrow> 'a \<Rightarrow> 'a \<Rightarrow> int \<Rightarrow> error option \<times> 'a graph" where
  "virtual_addEdge New_NullGraph = NullGraph_addEdge"
| "virtual_addEdge (New_TrivialGraph v) = TrivialGraph_addEdge"
| "virtual_addEdge New_DirectedAcyclicGraph = DirectedAcyclicGraph_addEdge"
| "virtual_addEdge New_BipartiteGraph = BipartiteGraph_addEdge"
| "virtual_addEdge k = Graph_addEdge"

text \<open>
  The public member functions that can change the object. \<open>addVertex\<close> is not virtual:
  \<open>Call_addVertex\<close> is the call on the object's own type (\<open>CompleteGraph::addVertex\<close> for a
  \<open>CompleteGraph\<close>), \<open>Call_Graph_addVertex\<close> the base class's function, reached through a
  \<open>Graph<T>&\<close> or a qualified call. \<open>call\<close> gives the object after the call, whether it
  returned or threw.
\<close>

datatype 'a mutation =
    Call_addVertex 'a
  | Call_Graph_addVertex 'a
  | Call_addEdge 'a 'a int
  | Call_deleteVertex 'a
  | Call_deleteEdge 'a 'a
  | Call_join "'a graph"

fun call :: "'a::linorder ctor \<Rightarrow> 'a mutation \<Rightarrow> 'a graph \<Rightarrow> 'a graph" where
  "call k (Call_addVertex v) g =
     (case k of New_CompleteGraph \<Rightarrow> CompleteGraph_addVertex g v | _ \<Rightarrow> addVertex g v)"
| "call k (Call_Graph_addVertex v) g = addVertex g v"
| "call k (Call_addEdge src dest weight) g = snd (virtual_addEdge k g src dest weight)"
| "call k (Call_deleteVertex v) g = snd (deleteVertex g v)"
| "call k (Call_deleteEdge src dest) g = snd (deleteEdge g src dest)"
| "call k (Call_join other) g = snd (join (virtual_addEdge k) g other)"

subsection \<open>Paths\<close>

text \<open>
  A path is a chain of stored adjacency entries: \<open>(u, v) \<in> edge_rel g\<close> when \<open>v\<close> is the
  target of an entry of \<open>adjList[u]\<close>, and \<open>(u, v) \<in> edge_rel g ^^ n\<close> when \<open>n\<close> such
  steps lead from \<open>u\<close> to \<open>v\<close>.
\<close>

definition edge_rel :: "'a graph \<Rightarrow> ('a \<times> 'a) set" where
  "edge_rel g = {(u, v). v \<in> fst ` set (neighbors (adjList g) u)}"

section \<open>Properties\<close>

subsection \<open>The counter and the keys of the adjacency map\<close>

text \<open>
  \<open>graph_inv\<close>: \<open>numVertices\<close> is the size of the vertex set and the adjacency map has
  exactly the vertices as keys. Every constructor establishes it and every mutator keeps it.
\<close>

definition graph_inv :: "'a graph \<Rightarrow> bool" where
  "graph_inv g \<longleftrightarrow> numVertices g = int (fcard (vertices g)) \<and> fmdom (adjList g) = vertices g"

lemma graph_inv_Graph: "graph_inv (Graph d w)"
  by (simp add: graph_inv_def Graph_def)

lemma graph_inv_addVertex: "graph_inv g \<Longrightarrow> graph_inv (addVertex g v)"
  by (auto simp: graph_inv_def addVertex_def fcard_finsert_disjoint)

lemma fmdom_push_back: "fmdom (push_back m k p) = finsert k (fmdom m)"
  by (simp add: push_back_def)

lemma fmdom_erase_target: "fmdom (erase_target m k x) = finsert k (fmdom m)"
  by (simp add: erase_target_def)

lemma graph_inv_adjList_upd:
  "graph_inv g \<Longrightarrow> fmdom m = vertices g \<Longrightarrow> graph_inv (g\<lparr>adjList := m\<rparr>)"
  by (simp add: graph_inv_def)

lemma graph_inv_addEdge: "graph_inv g \<Longrightarrow> graph_inv (addEdge g s d w)"
proof -
  assume "graph_inv g"
  then have g2: "graph_inv (addVertex (addVertex g s) d)" by (intro graph_inv_addVertex)
  have v: "s |\<in>| vertices (addVertex (addVertex g s) d)" "d |\<in>| vertices (addVertex (addVertex g s) d)"
    by (simp_all add: vertices_addVertex)
  from g2 have k: "fmdom (adjList (addVertex (addVertex g s) d)) = vertices (addVertex (addVertex g s) d)"
    by (simp add: graph_inv_def)
  show ?thesis
    using g2 v k unfolding addEdge_def Let_def graph_inv_def
    by (auto simp: fmdom_push_back)
qed

lemma graph_inv_deleteVertex: "graph_inv g \<Longrightarrow> graph_inv (snd (deleteVertex g v))"
proof (cases "v |\<in>| vertices g")
  case False
  assume "graph_inv g"
  with False show ?thesis by (simp add: deleteVertex_def)
next
  case True
  assume g: "graph_inv g"
  from fcard_Suc_fminus1 [OF True]
  have "int (fcard (vertices g |-| {|v|})) = int (fcard (vertices g)) - 1" by linarith
  moreover have "fmdom (fmmap (filter (\<lambda>p. fst p \<noteq> v)) (fmdrop v (adjList g))) = vertices g |-| {|v|}"
    using g by (auto simp: graph_inv_def)
  ultimately show ?thesis using g True by (simp add: graph_inv_def deleteVertex_def)
qed

lemma graph_inv_deleteEdge: "graph_inv g \<Longrightarrow> graph_inv (snd (deleteEdge g s d))"
  by (auto simp: graph_inv_def deleteEdge_def Let_def fmdom_erase_target)

lemma graph_inv_erase:
  "graph_inv g \<Longrightarrow> k |\<in>| vertices g \<Longrightarrow> graph_inv (g\<lparr>adjList := erase_target (adjList g) k x\<rparr>)"
  by (auto simp: graph_inv_def fmdom_erase_target)

lemma graph_inv_CompleteGraph_for:
  "graph_inv g \<Longrightarrow> graph_inv (CompleteGraph_addVertex_for g vertex it)"
proof (induction g vertex it rule: CompleteGraph_addVertex_for.induct)
  case (1 g vertex)
  then show ?case by simp
next
  case (2 g vertex v)
  from "2.IH" [OF refl graph_inv_addEdge [OF "2.prems"]] show ?case by (simp add: Let_def)
qed

lemma graph_inv_CompleteGraph_addVertex: "graph_inv g \<Longrightarrow> graph_inv (CompleteGraph_addVertex g v)"
  by (simp add: CompleteGraph_addVertex_def graph_inv_addVertex graph_inv_CompleteGraph_for)

lemma graph_inv_DirectedAcyclicGraph_addEdge:
  "graph_inv g \<Longrightarrow> graph_inv (snd (DirectedAcyclicGraph_addEdge g s d w))"
proof -
  assume "graph_inv g"
  then have 1: "graph_inv (addEdge g s d w)" by (rule graph_inv_addEdge)
  have "s |\<in>| vertices (addEdge g s d w)" by (simp add: vertices_addEdge)
  from graph_inv_erase [OF 1 this] 1 show ?thesis
    by (simp add: DirectedAcyclicGraph_addEdge_def Let_def split: sum.splits bool.splits)
qed

lemma graph_inv_BipartiteGraph_addEdge:
  "graph_inv g \<Longrightarrow> graph_inv (snd (BipartiteGraph_addEdge g s d w))"
proof -
  assume "graph_inv g"
  then have 1: "graph_inv (addEdge g s d w)" by (rule graph_inv_addEdge)
  have s: "s |\<in>| vertices (addEdge g s d w)" by (simp add: vertices_addEdge)
  note 2 = graph_inv_erase [OF 1 s, of d]
  have "d |\<in>| vertices (addEdge g s d w\<lparr>adjList := erase_target (adjList (addEdge g s d w)) s d\<rparr>)"
    by (simp add: vertices_addEdge)
  from graph_inv_erase [OF 2 this, of s] 1 show ?thesis
    by (simp add: BipartiteGraph_addEdge_def Let_def split: sum.splits bool.splits)
qed

lemma graph_inv_virtual_addEdge:
  "graph_inv g \<Longrightarrow> graph_inv (snd (virtual_addEdge k g s d w))"
  by (cases k)
     (simp_all add: NullGraph_addEdge_def TrivialGraph_addEdge_def Graph_addEdge_def
        graph_inv_addEdge graph_inv_DirectedAcyclicGraph_addEdge graph_inv_BipartiteGraph_addEdge)

lemma graph_inv_join_neighbors:
  "(\<And>g s d w. graph_inv g \<Longrightarrow> graph_inv (snd (add g s d w))) \<Longrightarrow>
   graph_inv g \<Longrightarrow> graph_inv (snd (join_neighbors add src nbrs g))"
proof (induction nbrs arbitrary: g)
  case Nil
  then show ?case by simp
next
  case (Cons nb rest)
  have a: "graph_inv (snd (add g src (fst nb) (snd nb)))" by (rule Cons.prems(1) [OF Cons.prems(2)])
  show ?case
    using Cons.IH [OF Cons.prems(1) Cons.prems(2)] Cons.IH [OF Cons.prems(1) a] a
    by (auto simp: Let_def split: prod.splits option.splits)
qed

lemma graph_inv_join_entries:
  "(\<And>g s d w. graph_inv g \<Longrightarrow> graph_inv (snd (add g s d w))) \<Longrightarrow>
   graph_inv g \<Longrightarrow> graph_inv (snd (join_entries add es g))"
proof (induction es arbitrary: g)
  case Nil
  then show ?case by simp
next
  case (Cons e rest)
  from graph_inv_join_neighbors [OF Cons.prems(1) Cons.prems(2), where src = "fst e" and nbrs = "snd e"]
  have a: "graph_inv (snd (join_neighbors add (fst e) (snd e) g))" by simp
  show ?case
    using Cons.IH [OF Cons.prems(1) a] a
    by (auto split: prod.splits option.splits)
qed

lemma graph_inv_fold_addVertex:
  "graph_inv g \<Longrightarrow> graph_inv (fold (\<lambda>vertex g. addVertex g vertex) vs g)"
  by (induction vs arbitrary: g) (simp_all add: graph_inv_addVertex)

lemma graph_inv_join:
  "(\<And>g s d w. graph_inv g \<Longrightarrow> graph_inv (snd (add g s d w))) \<Longrightarrow>
   graph_inv g \<Longrightarrow> graph_inv (snd (join add g other))"
  by (simp add: join_def graph_inv_join_entries graph_inv_fold_addVertex)

lemma graph_inv_construct: "graph_inv (construct k)"
  by (cases k)
     (simp_all add: graph_inv_Graph NullGraph_def TrivialGraph_def CompleteGraph_def
        DirectedAcyclicGraph_def BipartiteGraph_def graph_inv_addVertex)

lemma graph_inv_call: "graph_inv g \<Longrightarrow> graph_inv (call k c g)"
proof (cases c)
  case (Call_addVertex v)
  assume "graph_inv g"
  then show ?thesis using Call_addVertex
    by (cases k) (simp_all add: graph_inv_addVertex graph_inv_CompleteGraph_addVertex)
next
  case (Call_join other)
  assume "graph_inv g"
  then show ?thesis using Call_join
    by (simp add: graph_inv_join graph_inv_virtual_addEdge)
qed (simp_all add: graph_inv_addVertex graph_inv_virtual_addEdge graph_inv_deleteVertex graph_inv_deleteEdge)

lemma graph_inv_calls: "graph_inv g \<Longrightarrow> graph_inv (fold (call k) cs g)"
  by (induction cs arbitrary: g) (simp_all add: graph_inv_call)

lemma graph_inv_plus_neighbors:
  "graph_inv r \<Longrightarrow> graph_inv (plus_neighbors this src nbrs r)"
  by (induction nbrs arbitrary: r) (simp_all add: graph_inv_addEdge)

lemma graph_inv_fold_plus_neighbors:
  "graph_inv r \<Longrightarrow> graph_inv (fold (\<lambda>pair g. plus_neighbors this (fst pair) (snd pair) g) es r)"
  by (induction es arbitrary: r) (simp_all add: graph_inv_plus_neighbors)

lemma graph_inv_operator_plus: "operator_plus this other = Inr r \<Longrightarrow> graph_inv r"
proof -
  assume a: "operator_plus this other = Inr r"
  let ?r2 = "fold (\<lambda>pair g. plus_neighbors this (fst pair) (snd pair) g) (entries (adjList this))
      (fold (\<lambda>vertex g. addVertex g vertex) (sorted_list_of_fset (vertices this))
         (Graph (isDirected this) (isWeighted this)))"
  have "graph_inv ?r2"
    by (intro graph_inv_fold_plus_neighbors graph_inv_fold_addVertex graph_inv_Graph)
  then have "graph_inv (snd (join Graph_addEdge ?r2 other))"
    by (intro graph_inv_join) (simp_all add: Graph_addEdge_def graph_inv_addEdge)
  moreover from a have "r = snd (join Graph_addEdge ?r2 other)"
    by (auto simp: operator_plus_def Let_def split: prod.splits option.splits)
  ultimately show ?thesis by simp
qed

subsection \<open>The adjacency lists after each mutator\<close>

lemma neighbors_fmupd: "neighbors (fmupd k xs m) k' = (if k' = k then xs else neighbors m k')"
  by (simp add: neighbors_def)

lemma neighbors_push_back:
  "neighbors (push_back m k p) k' = (if k' = k then neighbors m k @ [p] else neighbors m k')"
  by (simp add: push_back_def neighbors_fmupd)

lemma neighbors_erase_target:
  "neighbors (erase_target m k x) k' =
     (if k' = k then filter (\<lambda>p. fst p \<noteq> x) (neighbors m k) else neighbors m k')"
  by (simp add: erase_target_def neighbors_fmupd)

lemma neighbors_absent: "k |\<notin>| fmdom m \<Longrightarrow> neighbors m k = []"
  by (simp add: neighbors_def fmdom_notD)

lemma neighbors_addVertex:
  "graph_inv g \<Longrightarrow> neighbors (adjList (addVertex g v)) k = neighbors (adjList g) k"
  by (auto simp: addVertex_def neighbors_fmupd graph_inv_def neighbors_absent)

lemma neighbors_addEdge:
  "graph_inv g \<Longrightarrow>
   neighbors (adjList (addEdge g s d w)) k =
     neighbors (adjList g) k @ (if k = s then [(d, w)] else [])
       @ (if \<not> isDirected g \<and> k = d then [(s, w)] else [])"
proof -
  assume g: "graph_inv g"
  have d: "isDirected (addVertex (addVertex g a) b) = isDirected g" for a b
    by (simp add: addVertex_def)
  have n: "neighbors (adjList (addVertex (addVertex g a) b)) k' = neighbors (adjList g) k'" for k' a b
    by (simp add: neighbors_addVertex g graph_inv_addVertex)
  show ?thesis
    by (simp add: addEdge_def Let_def d neighbors_push_back n)
qed

lemma neighbors_deleteVertex:
  "neighbors (adjList (snd (deleteVertex g x))) k =
     (if x |\<in>| vertices g
      then (if k = x then [] else filter (\<lambda>p. fst p \<noteq> x) (neighbors (adjList g) k))
      else neighbors (adjList g) k)"
  by (auto simp: deleteVertex_def neighbors_def split: option.splits)

lemma neighbors_deleteEdge:
  "neighbors (adjList (snd (deleteEdge g s d))) k =
     (if s |\<in>| vertices g \<and> d |\<in>| vertices g
      then (if k = s \<or> (\<not> isDirected g \<and> k = d)
            then filter (\<lambda>p. \<not> (k = s \<and> fst p = d) \<and> \<not> (\<not> isDirected g \<and> k = d \<and> fst p = s))
                   (neighbors (adjList g) k)
            else neighbors (adjList g) k)
      else neighbors (adjList g) k)"
  by (auto simp: deleteEdge_def Let_def neighbors_erase_target intro!: filter_cong)

lemma isDirected_addVertex: "isDirected (addVertex g v) = isDirected g"
  by (simp add: addVertex_def)

lemma isDirected_addEdge: "isDirected (addEdge g s d w) = isDirected g"
  by (simp add: addEdge_def Let_def isDirected_addVertex)

lemma isDirected_deleteVertex: "isDirected (snd (deleteVertex g v)) = isDirected g"
  by (simp add: deleteVertex_def)

lemma isDirected_deleteEdge: "isDirected (snd (deleteEdge g s d)) = isDirected g"
  by (simp add: deleteEdge_def Let_def)

subsection \<open>Symmetry of an undirected adjacency structure\<close>

definition symmetric_adjacency :: "'a graph \<Rightarrow> bool" where
  "symmetric_adjacency g \<longleftrightarrow>
     (\<forall>v n w. (n, w) \<in> set (neighbors (adjList g) v) \<longrightarrow> (v, w) \<in> set (neighbors (adjList g) n))"

definition undirected_inv :: "'a graph \<Rightarrow> bool" where
  "undirected_inv g \<longleftrightarrow> graph_inv g \<and> \<not> isDirected g \<and> symmetric_adjacency g"

lemma undirected_inv_addVertex: "undirected_inv g \<Longrightarrow> undirected_inv (addVertex g v)"
  by (simp add: undirected_inv_def graph_inv_addVertex isDirected_addVertex
      symmetric_adjacency_def neighbors_addVertex)

lemma undirected_inv_addEdge: "undirected_inv g \<Longrightarrow> undirected_inv (addEdge g s d w)"
  unfolding undirected_inv_def symmetric_adjacency_def
  by (auto simp: graph_inv_addEdge isDirected_addEdge neighbors_addEdge split: if_splits)

lemma undirected_inv_deleteVertex: "undirected_inv g \<Longrightarrow> undirected_inv (snd (deleteVertex g v))"
  unfolding undirected_inv_def symmetric_adjacency_def
  by (auto simp: graph_inv_deleteVertex isDirected_deleteVertex neighbors_deleteVertex split: if_splits)

lemma undirected_inv_deleteEdge: "undirected_inv g \<Longrightarrow> undirected_inv (snd (deleteEdge g s d))"
  unfolding undirected_inv_def symmetric_adjacency_def
  by (auto simp: graph_inv_deleteEdge isDirected_deleteEdge neighbors_deleteEdge split: if_splits)


lemma join_neighbors_preserves:
  "(\<And>g s d w. P g \<Longrightarrow> P (snd (add g s d w))) \<Longrightarrow> P g \<Longrightarrow> P (snd (join_neighbors add src nbrs g))"
proof (induction nbrs arbitrary: g)
  case Nil
  then show ?case by simp
next
  case (Cons nb rest)
  have a: "P (snd (add g src (fst nb) (snd nb)))" by (rule Cons.prems(1) [OF Cons.prems(2)])
  show ?case
    using Cons.IH [OF Cons.prems(1) Cons.prems(2)] Cons.IH [OF Cons.prems(1) a] a
    by (auto simp: Let_def split: prod.splits option.splits)
qed

lemma join_entries_preserves:
  "(\<And>g s d w. P g \<Longrightarrow> P (snd (add g s d w))) \<Longrightarrow> P g \<Longrightarrow> P (snd (join_entries add es g))"
proof (induction es arbitrary: g)
  case Nil
  then show ?case by simp
next
  case (Cons e rest)
  from join_neighbors_preserves [of P add, OF Cons.prems(1) Cons.prems(2), where src = "fst e" and nbrs = "snd e"]
  have a: "P (snd (join_neighbors add (fst e) (snd e) g))" by simp
  show ?case
    using Cons.IH [OF Cons.prems(1) a] a
    by (auto split: prod.splits option.splits)
qed

lemma fold_addVertex_preserves:
  "(\<And>g v. P g \<Longrightarrow> P (addVertex g v)) \<Longrightarrow> P g \<Longrightarrow> P (fold (\<lambda>vertex g. addVertex g vertex) vs g)"
  by (induction vs arbitrary: g) simp_all

lemma join_preserves:
  assumes "\<And>g v. P g \<Longrightarrow> P (addVertex g v)" and "\<And>g s d w. P g \<Longrightarrow> P (snd (add g s d w))" and "P g"
  shows "P (snd (join add g other))"
proof -
  have "P (fold (\<lambda>vertex g. addVertex g vertex) (sorted_list_of_fset (vertices other)) g)"
    by (rule fold_addVertex_preserves [of P, OF assms(1) assms(3)])
  from join_entries_preserves [of P add, OF assms(2) this] assms(3)
  show ?thesis by (simp add: join_def)
qed

lemma undirected_inv_CompleteGraph_for:
  "undirected_inv g \<Longrightarrow> undirected_inv (CompleteGraph_addVertex_for g vertex it)"
proof (induction g vertex it rule: CompleteGraph_addVertex_for.induct)
  case (1 g vertex)
  then show ?case by simp
next
  case (2 g vertex v)
  from "2.IH" [OF refl undirected_inv_addEdge [OF "2.prems"]] show ?case by (simp add: Let_def)
qed

lemma undirected_inv_CompleteGraph_addVertex:
  "undirected_inv g \<Longrightarrow> undirected_inv (CompleteGraph_addVertex g v)"
  by (simp add: CompleteGraph_addVertex_def undirected_inv_addVertex undirected_inv_CompleteGraph_for)

lemma undirected_inv_erase_both:
  assumes "undirected_inv g" and "s |\<in>| vertices g" and "d |\<in>| vertices g"
  shows "undirected_inv (g\<lparr>adjList := erase_target (erase_target (adjList g) s d) d s\<rparr>)"
proof -
  from assms have "snd (deleteEdge g s d) = g\<lparr>adjList := erase_target (erase_target (adjList g) s d) d s\<rparr>"
    by (simp add: deleteEdge_def Let_def undirected_inv_def)
  with undirected_inv_deleteEdge [OF assms(1), of s d] show ?thesis by simp
qed

lemma undirected_inv_BipartiteGraph_addEdge:
  "undirected_inv g \<Longrightarrow> undirected_inv (snd (BipartiteGraph_addEdge g s d w))"
proof -
  assume "undirected_inv g"
  then have 1: "undirected_inv (addEdge g s d w)" by (rule undirected_inv_addEdge)
  have "s |\<in>| vertices (addEdge g s d w)" "d |\<in>| vertices (addEdge g s d w)"
    by (simp_all add: vertices_addEdge)
  from undirected_inv_erase_both [OF 1 this] 1 show ?thesis
    by (simp add: BipartiteGraph_addEdge_def Let_def split: sum.splits bool.splits)
qed

lemma undirected_inv_virtual_addEdge:
  "\<not> isDirected (construct k) \<Longrightarrow> undirected_inv g \<Longrightarrow> undirected_inv (snd (virtual_addEdge k g s d w))"
  by (cases k)
     (simp_all add: NullGraph_addEdge_def TrivialGraph_addEdge_def Graph_addEdge_def
        undirected_inv_addEdge undirected_inv_BipartiteGraph_addEdge DirectedAcyclicGraph_def Graph_def)

lemma undirected_inv_call:
  assumes "\<not> isDirected (construct k)" and "undirected_inv g"
  shows "undirected_inv (call k c g)"
proof (cases c)
  case (Call_addVertex v)
  with assms(2) show ?thesis
    by (cases k) (simp_all add: undirected_inv_addVertex undirected_inv_CompleteGraph_addVertex)
next
  case (Call_Graph_addVertex v)
  with assms(2) show ?thesis by (simp add: undirected_inv_addVertex)
next
  case (Call_addEdge s d w)
  with assms show ?thesis by (simp add: undirected_inv_virtual_addEdge)
next
  case (Call_deleteVertex v)
  with assms(2) show ?thesis by (simp add: undirected_inv_deleteVertex)
next
  case (Call_deleteEdge s d)
  with assms(2) show ?thesis by (simp add: undirected_inv_deleteEdge)
next
  case (Call_join other)
  have "undirected_inv (snd (join (virtual_addEdge k) g other))"
    by (rule join_preserves [of undirected_inv])
       (simp_all add: undirected_inv_addVertex undirected_inv_virtual_addEdge assms)
  with Call_join show ?thesis by simp
qed

lemma undirected_inv_construct: "\<not> isDirected (construct k) \<Longrightarrow> undirected_inv (construct k)"
proof -
  have e: "undirected_inv (Graph d w)" if "\<not> isDirected (Graph d w :: 'a graph)" for d w :: bool
    using that by (simp add: undirected_inv_def graph_inv_Graph symmetric_adjacency_def)
       (simp add: Graph_def neighbors_def)
  have f: "undirected_inv (Graph False False :: 'a graph)"
    by (rule e) (simp add: Graph_def)
  assume "\<not> isDirected (construct k)"
  then show ?thesis
    by (cases k)
       (auto simp: e f NullGraph_def TrivialGraph_def CompleteGraph_def BipartiteGraph_def
          DirectedAcyclicGraph_def undirected_inv_addVertex Graph_def [of True])
qed

lemma undirected_inv_calls:
  "\<not> isDirected (construct k) \<Longrightarrow> undirected_inv g \<Longrightarrow> undirected_inv (fold (call k) cs g)"
  by (induction cs arbitrary: g) (simp_all add: undirected_inv_call)

subsection \<open>Well-formed graphs\<close>

text \<open>
  \<open>wf_graph\<close>: \<open>graph_inv\<close>, and every stored entry targets a vertex. It holds of every
  constructed graph and is kept by every mutator and by \<open>operator+\<close>.
\<close>

definition wf_graph :: "'a graph \<Rightarrow> bool" where
  "wf_graph g \<longleftrightarrow> graph_inv g \<and> (\<forall>k. fst ` set (neighbors (adjList g) k) \<subseteq> fset (vertices g))"

lemma wf_graph_Graph: "wf_graph (Graph d w)"
  by (simp add: wf_graph_def graph_inv_Graph) (simp add: Graph_def neighbors_def)

lemma wf_graph_addVertex: "wf_graph g \<Longrightarrow> wf_graph (addVertex g v)"
  by (auto simp: wf_graph_def graph_inv_addVertex neighbors_addVertex vertices_addVertex)

lemma wf_graph_addEdge: "wf_graph g \<Longrightarrow> wf_graph (addEdge g s d w)"
  unfolding wf_graph_def
  by (auto simp: graph_inv_addEdge neighbors_addEdge vertices_addEdge split: if_splits)

lemma wf_graph_deleteVertex: "wf_graph g \<Longrightarrow> wf_graph (snd (deleteVertex g v))"
proof -
  assume g: "wf_graph g"
  have v: "vertices (snd (deleteVertex g v)) = (if v |\<in>| vertices g then vertices g |-| {|v|} else vertices g)"
    by (simp add: deleteVertex_def)
  show ?thesis
    using g unfolding wf_graph_def
    by (auto simp: graph_inv_deleteVertex neighbors_deleteVertex v split: if_splits)
qed

lemma wf_graph_deleteEdge: "wf_graph g \<Longrightarrow> wf_graph (snd (deleteEdge g s d))"
proof -
  assume g: "wf_graph g"
  have v: "vertices (snd (deleteEdge g s d)) = vertices g"
    by (simp add: deleteEdge_def Let_def)
  show ?thesis
    using g unfolding wf_graph_def
    by (auto simp: graph_inv_deleteEdge neighbors_deleteEdge v split: if_splits)
qed

lemma wf_graph_erase:
  "wf_graph g \<Longrightarrow> k |\<in>| vertices g \<Longrightarrow> wf_graph (g\<lparr>adjList := erase_target (adjList g) k x\<rparr>)"
  unfolding wf_graph_def
  by (auto simp: graph_inv_erase neighbors_erase_target split: if_splits)

lemma wf_graph_CompleteGraph_for:
  "wf_graph g \<Longrightarrow> wf_graph (CompleteGraph_addVertex_for g vertex it)"
proof (induction g vertex it rule: CompleteGraph_addVertex_for.induct)
  case (1 g vertex)
  then show ?case by simp
next
  case (2 g vertex v)
  from "2.IH" [OF refl wf_graph_addEdge [OF "2.prems"]] show ?case by (simp add: Let_def)
qed

lemma wf_graph_virtual_addEdge: "wf_graph g \<Longrightarrow> wf_graph (snd (virtual_addEdge k g s d w))"
proof -
  assume g: "wf_graph g"
  then have 1: "wf_graph (addEdge g s d w)" by (rule wf_graph_addEdge)
  have s: "s |\<in>| vertices (addEdge g s d w)" by (simp add: vertices_addEdge)
  note 2 = wf_graph_erase [OF 1 s, of d]
  have "d |\<in>| vertices (addEdge g s d w\<lparr>adjList := erase_target (adjList (addEdge g s d w)) s d\<rparr>)"
    by (simp add: vertices_addEdge)
  note 3 = wf_graph_erase [OF 2 this, of s]
  have dag: "wf_graph (snd (DirectedAcyclicGraph_addEdge g s d w))"
    using 1 2 by (simp add: DirectedAcyclicGraph_addEdge_def Let_def split: sum.splits bool.splits)
  have bip: "wf_graph (snd (BipartiteGraph_addEdge g s d w))"
    using 1 3 by (simp add: BipartiteGraph_addEdge_def Let_def split: sum.splits bool.splits)
  show ?thesis
    by (cases k) (simp_all add: NullGraph_addEdge_def TrivialGraph_addEdge_def Graph_addEdge_def g 1 dag bip)
qed

lemma wf_graph_call: "wf_graph g \<Longrightarrow> wf_graph (call k c g)"
proof (cases c)
  case (Call_addVertex v)
  assume "wf_graph g"
  then show ?thesis using Call_addVertex
    by (cases k) (simp_all add: wf_graph_addVertex CompleteGraph_addVertex_def wf_graph_CompleteGraph_for)
next
  case (Call_join other)
  assume g: "wf_graph g"
  have "wf_graph (snd (join (virtual_addEdge k) g other))"
    by (rule join_preserves [of wf_graph]) (simp_all add: wf_graph_addVertex wf_graph_virtual_addEdge g)
  with Call_join show ?thesis by simp
qed (simp_all add: wf_graph_addVertex wf_graph_virtual_addEdge wf_graph_deleteVertex wf_graph_deleteEdge)

lemma wf_graph_reachable: "wf_graph (fold (call k) cs (construct k))"
proof -
  have c: "wf_graph (construct k)"
    by (cases k)
       (simp_all add: wf_graph_Graph NullGraph_def TrivialGraph_def CompleteGraph_def
          DirectedAcyclicGraph_def BipartiteGraph_def wf_graph_addVertex)
  have "wf_graph g \<Longrightarrow> wf_graph (fold (call k) cs g)" for g
    by (induction cs arbitrary: g) (simp_all add: wf_graph_call)
  from this [OF c] show ?thesis .
qed

text \<open>
  C2. After any sequence of public mutating calls on an object whose directedness flag is
  false (whatever its class, and with \<open>join\<close> among the calls), the adjacency structure is
  symmetric: for every entry \<open>(n, w)\<close> of \<open>adjList[v]\<close> there is an entry \<open>(v, w)\<close> in
  \<open>adjList[n]\<close>.
\<close>

theorem C2_symmetric_adjacency:
  assumes "\<not> isDirected (construct k)"
  shows "\<forall>v n w. (n, w) \<in> set (neighbors (adjList (fold (call k) cs (construct k))) v)
            \<longrightarrow> (v, w) \<in> set (neighbors (adjList (fold (call k) cs (construct k))) n)"
proof -
  have "undirected_inv (fold (call k) cs (construct k))"
    by (intro undirected_inv_calls undirected_inv_construct assms)
  then show ?thesis by (simp add: undirected_inv_def symmetric_adjacency_def)
qed

theorem C2_symmetric_adjacency_witness:
  "\<not> isDirected (construct (New_Graph False True :: int ctor))
   \<and> (2, 7) \<in> set (neighbors (adjList (fold (call (New_Graph False True))
         [Call_addEdge 1 2 7, Call_addEdge 2 3 4, Call_addVertex 9, Call_deleteEdge 3 2, Call_deleteVertex 9]
         (construct (New_Graph False True)))) (1::int))
   \<and> (1, 7) \<in> set (neighbors (adjList (fold (call (New_Graph False True))
         [Call_addEdge 1 2 7, Call_addEdge 2 3 4, Call_addVertex 9, Call_deleteEdge 3 2, Call_deleteVertex 9]
         (construct (New_Graph False True)))) (2::int))"
proof -
  have d: "\<not> isDirected (construct (New_Graph False True :: int ctor))" by code_simp
  have m: "(2, 7) \<in> set (neighbors (adjList (fold (call (New_Graph False True))
         [Call_addEdge 1 2 7, Call_addEdge 2 3 4, Call_addVertex 9, Call_deleteEdge 3 2, Call_deleteVertex 9]
         (construct (New_Graph False True)))) (1::int))"
    by code_simp
  from C2_symmetric_adjacency [OF d, of "[Call_addEdge 1 2 7, Call_addEdge 2 3 4, Call_addVertex 9, Call_deleteEdge 3 2, Call_deleteVertex 9]"] m d
  show ?thesis by blast
qed

text \<open>
  C3. \<open>getGirth()\<close> is to return \<open>-1\<close> exactly when the graph has no cycle and the length
  of a shortest cycle otherwise. It does not: on the directed graph with the edges
  \<open>1 \<rightarrow> 2\<close> and \<open>2 \<rightarrow> 1\<close> it returns \<open>-1\<close> although \<open>1 \<rightarrow> 2 \<rightarrow> 1\<close> is a cycle (the
  \<open>neighbor.first != parent\<close> test takes the edge back to the parent for the undirected edge it
  came by), and \<open>DirectedAcyclicGraph::addEdge\<close> rejects that same second edge as closing a
  cycle; on the directed graph \<open>1 \<rightarrow> 2\<close>, \<open>1 \<rightarrow> 3\<close>, \<open>2 \<rightarrow> 3\<close>, which
  \<open>DirectedAcyclicGraph::addEdge\<close> accepts edge by edge, it returns \<open>3\<close>.
\<close>

theorem C3_getGirth_misses_directed_cycle:
  "getGirth (addEdge (addEdge (Graph True False) 1 2 1) 2 (1::int) 1) = - 1
   \<and> (1, 1) \<in> edge_rel (addEdge (addEdge (Graph True False) 1 2 1) 2 (1::int) 1) ^^ 2
   \<and> fst (DirectedAcyclicGraph_addEdge (addEdge DirectedAcyclicGraph 1 2 1) 2 (1::int) 1) = Some logic_error
   \<and> getGirth (addEdge (addEdge (addEdge (Graph True False) 1 2 1) 1 3 1) 2 (3::int) 1) = 3
   \<and> DirectedAcyclicGraph_addEdge (addEdge (addEdge DirectedAcyclicGraph 1 2 1) 1 3 1) 2 (3::int) 1
       = (None, addEdge (addEdge (addEdge (Graph True False) 1 2 1) 1 3 1) 2 3 1)"
proof -
  let ?g = "addEdge (addEdge (Graph True False) 1 2 1) 2 (1::int) 1"
  have g: "getGirth ?g = - 1" by code_simp
  have n: "neighbors (adjList ?g) 1 = [(2, 1)]" "neighbors (adjList ?g) 2 = [(1, 1)]"
    by code_simp+
  have "(1, 2) \<in> edge_rel ?g" "(2, 1) \<in> edge_rel ?g" by (simp_all add: edge_rel_def n)
  then have "(1, 1) \<in> edge_rel ?g O edge_rel ?g" by blast
  then have c: "(1, 1) \<in> edge_rel ?g ^^ 2" by (simp add: numeral_2_eq_2)
  have d: "fst (DirectedAcyclicGraph_addEdge (addEdge DirectedAcyclicGraph 1 2 1) 2 (1::int) 1) = Some logic_error"
    by code_simp
  have t: "getGirth (addEdge (addEdge (addEdge (Graph True False) 1 2 1) 1 3 1) 2 (3::int) 1) = 3"
    by code_simp
  have a: "DirectedAcyclicGraph_addEdge (addEdge (addEdge DirectedAcyclicGraph 1 2 1) 1 3 1) 2 (3::int) 1
       = (None, addEdge (addEdge (addEdge (Graph True False) 1 2 1) 1 3 1) 2 3 1)"
    by code_simp
  from g c d t a show ?thesis by blast
qed

subsection \<open>Graphs without edges\<close>

definition no_edges :: "'a graph \<Rightarrow> bool" where
  "no_edges g \<longleftrightarrow> graph_inv g \<and> (\<forall>k. neighbors (adjList g) k = [])"

lemma no_edges_addVertex: "no_edges g \<Longrightarrow> no_edges (addVertex g v)"
  by (simp add: no_edges_def graph_inv_addVertex neighbors_addVertex)

lemma no_edges_deleteVertex: "no_edges g \<Longrightarrow> no_edges (snd (deleteVertex g v))"
  by (simp add: no_edges_def graph_inv_deleteVertex neighbors_deleteVertex)

lemma no_edges_deleteEdge: "no_edges g \<Longrightarrow> no_edges (snd (deleteEdge g s d))"
  by (simp add: no_edges_def graph_inv_deleteEdge neighbors_deleteEdge)

lemma no_edges_call_TrivialGraph: "no_edges g \<Longrightarrow> no_edges (call (New_TrivialGraph v) c g)"
proof (cases c)
  case (Call_join other)
  assume g: "no_edges g"
  have "no_edges (snd (join TrivialGraph_addEdge g other))"
    by (rule join_preserves [of no_edges]) (simp_all add: no_edges_addVertex TrivialGraph_addEdge_def g)
  with Call_join show ?thesis by simp
qed (simp_all add: no_edges_addVertex no_edges_deleteVertex no_edges_deleteEdge TrivialGraph_addEdge_def)

lemma no_edges_calls_TrivialGraph: "no_edges g \<Longrightarrow> no_edges (fold (call (New_TrivialGraph v)) cs g)"
  by (induction cs arbitrary: g) (simp_all add: no_edges_call_TrivialGraph)

lemma no_edges_TrivialGraph: "no_edges (TrivialGraph v)"
proof -
  have "no_edges (Graph False False :: 'a graph)"
    by (simp add: no_edges_def graph_inv_Graph) (simp add: Graph_def neighbors_def)
  then show ?thesis by (simp add: TrivialGraph_def no_edges_addVertex)
qed

lemma fold_count_zero:
  "\<forall>pair \<in> set es. snd pair = [] \<Longrightarrow>
   fold (\<lambda>pair count. count + int (length (snd pair))) es c = c"
  by (induction es arbitrary: c) simp_all

lemma no_edges_getNumEdges: "no_edges g \<Longrightarrow> getNumEdges g = 0"
proof -
  assume "no_edges g"
  then have "\<forall>pair \<in> set (entries (adjList g)). snd pair = []"
    by (auto simp: no_edges_def entries_def)
  from fold_count_zero [OF this] show ?thesis by (simp add: getNumEdges_def)
qed

text \<open>
  The edge half of what is said of a \<open>TrivialGraph\<close> holds in every state of such an object:
  \<open>addEdge\<close> raises \<open>logic_error\<close> and leaves the graph as it was, and after any sequence
  of public mutating calls \<open>getNumEdges()\<close> is \<open>0\<close>.
\<close>

lemma TrivialGraph_edges:
  "TrivialGraph_addEdge g src dest weight = (Some logic_error, g)
   \<and> virtual_addEdge (New_TrivialGraph v) = TrivialGraph_addEdge
   \<and> getNumEdges (fold (call (New_TrivialGraph v)) cs (construct (New_TrivialGraph v))) = 0"
proof -
  have "no_edges (fold (call (New_TrivialGraph v)) cs (construct (New_TrivialGraph v)))"
    by (simp add: no_edges_calls_TrivialGraph no_edges_TrivialGraph)
  from no_edges_getNumEdges [OF this] show ?thesis
    by (simp add: TrivialGraph_addEdge_def)
qed

text \<open>
  C4. A \<open>TrivialGraph\<close> is to have exactly one vertex, the one it was constructed with, after
  any sequence of public operations; the class comment calls it "a graph with only one vertex
  and no edges" and \<open>display()\<close> prints "1 vertex" and the first element of the vertex set.
  The class guards \<open>addEdge\<close> only. On \<open>TrivialGraph(1)\<close>, \<open>addEdge(1, 2)\<close> raises
  \<open>logic_error\<close> and changes nothing, but \<open>addVertex(2)\<close> returns and leaves two vertices, and
  \<open>deleteVertex(1)\<close> returns and leaves none.
\<close>

theorem C4_TrivialGraph_vertex_count:
  "getNumVertices (construct (New_TrivialGraph (1::int))) = 1
   \<and> vertices (construct (New_TrivialGraph (1::int))) = {|1|}
   \<and> virtual_addEdge (New_TrivialGraph 1) (construct (New_TrivialGraph (1::int))) 1 2 1
       = (Some logic_error, construct (New_TrivialGraph 1))
   \<and> getNumVertices (call (New_TrivialGraph 1) (Call_addVertex 2) (construct (New_TrivialGraph (1::int)))) = 2
   \<and> vertices (call (New_TrivialGraph 1) (Call_addVertex 2) (construct (New_TrivialGraph (1::int)))) = {|1, 2|}
   \<and> getNumEdges (call (New_TrivialGraph 1) (Call_addVertex 2) (construct (New_TrivialGraph (1::int)))) = 0
   \<and> getNumVertices (call (New_TrivialGraph 1) (Call_deleteVertex 1) (construct (New_TrivialGraph (1::int)))) = 0
   \<and> vertices (call (New_TrivialGraph 1) (Call_deleteVertex 1) (construct (New_TrivialGraph (1::int)))) = {||}"
  by code_simp

subsection \<open>Shortest hop counts\<close>

text \<open>
  \<open>shortest_path_length\<close> is the specification of \<open>getDistance\<close>: the least number of
  steps of \<open>edge_rel\<close> from \<open>src\<close> to \<open>dest\<close>, and \<open>-1\<close> when no number of steps
  leads there.
\<close>

definition shortest_path_length :: "'a graph \<Rightarrow> 'a \<Rightarrow> 'a \<Rightarrow> int" where
  "shortest_path_length g src dest =
     (if \<exists>n. (src, dest) \<in> edge_rel g ^^ n
      then int (LEAST n. (src, dest) \<in> edge_rel g ^^ n)
      else - 1)"

definition dist_inv :: "'a graph \<Rightarrow> 'a \<Rightarrow> 'a \<Rightarrow> 'a \<Rightarrow> ('a \<times> int) list \<Rightarrow> 'a set \<Rightarrow> 'a list \<Rightarrow> ('a \<Rightarrow> int) \<Rightarrow> bool" where
  "dist_inv g src dest c rest V q d \<longleftrightarrow>
     src \<in> V \<and> dest \<notin> V \<and> c \<in> V \<and> set q \<subseteq> V
     \<and> (\<forall>v\<in>V. 0 \<le> d v \<and> (src, v) \<in> edge_rel g ^^ nat (d v))
     \<and> (\<forall>v\<in>V. \<forall>n. (src, v) \<in> edge_rel g ^^ n \<longrightarrow> d v \<le> int n)
     \<and> (\<forall>u\<in>V. u \<notin> set q \<longrightarrow> (\<forall>v. (u, v) \<in> edge_rel g \<longrightarrow> v \<in> V \<or> (u = c \<and> v \<in> fst ` set rest)))
     \<and> (\<forall>x\<in>set q. d c \<le> d x \<and> d x \<le> d c + 1)
     \<and> sorted (map d q)
     \<and> (\<forall>v \<in> fst ` set rest. (c, v) \<in> edge_rel g)"

lemma first_unvisited:
  "src \<in> V \<Longrightarrow> v \<notin> V \<Longrightarrow> (src, v) \<in> E ^^ m \<Longrightarrow>
   \<exists>i<m. \<exists>u w. u \<in> V \<and> w \<notin> V \<and> (src, u) \<in> E ^^ i \<and> (u, w) \<in> E"
proof (induction m arbitrary: v)
  case 0
  then show ?case by simp
next
  case (Suc m)
  from Suc.prems(3) obtain y where y: "(src, y) \<in> E ^^ m" "(y, v) \<in> E" by auto
  show ?case
  proof (cases "y \<in> V")
    case True
    with y Suc.prems(2) show ?thesis by blast
  next
    case False
    from Suc.IH [OF Suc.prems(1) False y(1)] show ?thesis
      using less_Suc_eq by blast
  qed
qed

lemma closed_reach:
  "\<forall>u\<in>V. \<forall>v. (u, v) \<in> E \<longrightarrow> v \<in> V \<Longrightarrow> u \<in> V \<Longrightarrow> (u, v) \<in> E ^^ n \<Longrightarrow> v \<in> V"
  by (induction n arbitrary: v) auto

lemma dist_invD:
  assumes "dist_inv g src dest c rest V q d"
  shows "src \<in> V" and "dest \<notin> V" and "c \<in> V" and "set q \<subseteq> V"
    and "\<And>v. v \<in> V \<Longrightarrow> 0 \<le> d v \<and> (src, v) \<in> edge_rel g ^^ nat (d v)"
    and "\<And>v n. v \<in> V \<Longrightarrow> (src, v) \<in> edge_rel g ^^ n \<Longrightarrow> d v \<le> int n"
    and "\<And>u v. u \<in> V \<Longrightarrow> u \<notin> set q \<Longrightarrow> (u, v) \<in> edge_rel g \<Longrightarrow> v \<in> V \<or> (u = c \<and> v \<in> fst ` set rest)"
    and "\<And>x. x \<in> set q \<Longrightarrow> d c \<le> d x \<and> d x \<le> d c + 1"
    and "sorted (map d q)"
    and "\<And>v. v \<in> fst ` set rest \<Longrightarrow> (c, v) \<in> edge_rel g"
proof -
  from assms have a: "src \<in> V" "dest \<notin> V" "c \<in> V" "set q \<subseteq> V" "sorted (map d q)"
    and b: "\<forall>v\<in>V. 0 \<le> d v \<and> (src, v) \<in> edge_rel g ^^ nat (d v)"
    and c: "\<forall>v\<in>V. \<forall>n. (src, v) \<in> edge_rel g ^^ n \<longrightarrow> d v \<le> int n"
    and e: "\<forall>u\<in>V. u \<notin> set q \<longrightarrow> (\<forall>v. (u, v) \<in> edge_rel g \<longrightarrow> v \<in> V \<or> (u = c \<and> v \<in> fst ` set rest))"
    and f: "\<forall>x\<in>set q. d c \<le> d x \<and> d x \<le> d c + 1"
    and h: "\<forall>v \<in> fst ` set rest. (c, v) \<in> edge_rel g"
    unfolding dist_inv_def by simp_all
  show "src \<in> V" "dest \<notin> V" "c \<in> V" "set q \<subseteq> V" "sorted (map d q)" by (rule a)+
  show "\<And>v. v \<in> V \<Longrightarrow> 0 \<le> d v \<and> (src, v) \<in> edge_rel g ^^ nat (d v)" using b by blast
  show "\<And>v n. v \<in> V \<Longrightarrow> (src, v) \<in> edge_rel g ^^ n \<Longrightarrow> d v \<le> int n" using c by blast
  show "\<And>u v. u \<in> V \<Longrightarrow> u \<notin> set q \<Longrightarrow> (u, v) \<in> edge_rel g \<Longrightarrow> v \<in> V \<or> (u = c \<and> v \<in> fst ` set rest)"
    using e by blast
  show "\<And>x. x \<in> set q \<Longrightarrow> d c \<le> d x \<and> d x \<le> d c + 1" using f by blast
  show "\<And>v. v \<in> fst ` set rest \<Longrightarrow> (c, v) \<in> edge_rel g" using h by blast
qed

lemma dist_invI:
  assumes "src \<in> V" and "dest \<notin> V" and "c \<in> V" and "set q \<subseteq> V"
    and "\<And>v. v \<in> V \<Longrightarrow> 0 \<le> d v \<and> (src, v) \<in> edge_rel g ^^ nat (d v)"
    and "\<And>v n. v \<in> V \<Longrightarrow> (src, v) \<in> edge_rel g ^^ n \<Longrightarrow> d v \<le> int n"
    and "\<And>u v. u \<in> V \<Longrightarrow> u \<notin> set q \<Longrightarrow> (u, v) \<in> edge_rel g \<Longrightarrow> v \<in> V \<or> (u = c \<and> v \<in> fst ` set rest)"
    and "\<And>x. x \<in> set q \<Longrightarrow> d c \<le> d x \<and> d x \<le> d c + 1"
    and "sorted (map d q)"
    and "\<And>v. v \<in> fst ` set rest \<Longrightarrow> (c, v) \<in> edge_rel g"
  shows "dist_inv g src dest c rest V q d"
  unfolding dist_inv_def
  apply (intro conjI ballI allI impI)
  using assms apply blast+
  done

lemma dist_inv_discover:
  assumes inv: "dist_inv g src dest c ((n, w) # rest) V q d" and n: "n \<notin> V"
  shows "(src, n) \<in> edge_rel g ^^ nat (d c + 1)" and "\<forall>m. (src, n) \<in> edge_rel g ^^ m \<longrightarrow> d c + 1 \<le> int m"
proof -
  note D = dist_invD [OF inv]
  have c: "0 \<le> d c" "(src, c) \<in> edge_rel g ^^ nat (d c)" using D(5) [OF D(3)] by simp_all
  have e: "(c, n) \<in> edge_rel g" by (rule D(10)) simp
  have "nat (d c + 1) = Suc (nat (d c))" using c(1) by simp
  then show "(src, n) \<in> edge_rel g ^^ nat (d c + 1)" using c(2) e by auto
  show "\<forall>m. (src, n) \<in> edge_rel g ^^ m \<longrightarrow> d c + 1 \<le> int m"
  proof (intro allI impI)
    fix m assume m: "(src, n) \<in> edge_rel g ^^ m"
    from first_unvisited [OF D(1) n m] obtain i u x where
      i: "i < m" "u \<in> V" "x \<notin> V" "(src, u) \<in> edge_rel g ^^ i" "(u, x) \<in> edge_rel g" by blast
    from D(6) [OF i(2,4)] have ub: "d u \<le> int i" .
    have "d c \<le> d u"
    proof (cases "u \<in> set q")
      case True
      from D(8) [OF this] show ?thesis by simp
    next
      case False
      from D(7) [OF i(2) False i(5)] i(3) have "u = c" by simp
      then show ?thesis by simp
    qed
    with ub i(1) show "d c + 1 \<le> int m" by linarith
  qed
qed

lemma dist_inv_push:
  assumes inv: "dist_inv g src dest c ((n, w) # rest) V q d" and n: "n \<notin> V" and nd: "n \<noteq> dest"
  shows "dist_inv g src dest c rest (insert n V) (q @ [n]) (d(n := d c + 1))"
proof (rule dist_invI)
  note D = dist_invD [OF inv]
  note disc = dist_inv_discover [OF inv n]
  have c0: "0 \<le> d c" using D(5) [OF D(3)] by simp
  from D(3) n have cn: "c \<noteq> n" by auto
  from D(4) n have qn: "n \<notin> set q" by auto
  then have mapq: "map (d(n := d c + 1)) q = map d q" by (induction q) auto
  show "src \<in> insert n V" using D(1) by simp
  show "dest \<notin> insert n V" using D(2) nd by simp
  show "c \<in> insert n V" using D(3) by simp
  show "set (q @ [n]) \<subseteq> insert n V" using D(4) by auto
  show "0 \<le> (d(n := d c + 1)) v \<and> (src, v) \<in> edge_rel g ^^ nat ((d(n := d c + 1)) v)"
    if "v \<in> insert n V" for v
  proof (cases "v = n")
    case True
    then show ?thesis using disc(1) c0 by simp
  next
    case False
    with that have "v \<in> V" by simp
    from D(5) [OF this] False show ?thesis by simp
  qed
  show "(d(n := d c + 1)) v \<le> int m" if "v \<in> insert n V" "(src, v) \<in> edge_rel g ^^ m" for v m
  proof (cases "v = n")
    case True
    then show ?thesis using disc(2) that(2) by simp
  next
    case False
    with that have "v \<in> V" by simp
    from D(6) [OF this that(2)] False show ?thesis by simp
  qed
  show "v \<in> insert n V \<or> (u = c \<and> v \<in> fst ` set rest)"
    if "u \<in> insert n V" "u \<notin> set (q @ [n])" "(u, v) \<in> edge_rel g" for u v
  proof -
    from that(1,2) have u: "u \<in> V" "u \<notin> set q" by auto
    from D(7) [OF u that(3)] show ?thesis by auto
  qed
  show "(d(n := d c + 1)) c \<le> (d(n := d c + 1)) x \<and> (d(n := d c + 1)) x \<le> (d(n := d c + 1)) c + 1"
    if "x \<in> set (q @ [n])" for x
  proof (cases "x = n")
    case True
    then show ?thesis using cn by simp
  next
    case False
    with that have "x \<in> set q" by simp
    from D(8) [OF this] False cn show ?thesis by simp
  qed
  show "sorted (map (d(n := d c + 1)) (q @ [n]))"
    using D(9) D(8) by (auto simp: mapq sorted_append)
  show "(c, v) \<in> edge_rel g" if "v \<in> fst ` set rest" for v
    using D(10) [of v] that by auto
qed

lemma dist_inv_skip:
  assumes inv: "dist_inv g src dest c ((n, w) # rest) V q d" and n: "n \<in> V"
  shows "dist_inv g src dest c rest V q d"
proof (rule dist_invI)
  note D = dist_invD [OF inv]
  show "src \<in> V" "dest \<notin> V" "c \<in> V" "set q \<subseteq> V" "sorted (map d q)" by (rule D)+
  show "0 \<le> d v \<and> (src, v) \<in> edge_rel g ^^ nat (d v)" if "v \<in> V" for v by (rule D(5) [OF that])
  show "d v \<le> int m" if "v \<in> V" "(src, v) \<in> edge_rel g ^^ m" for v m by (rule D(6) [OF that])
  show "v \<in> V \<or> (u = c \<and> v \<in> fst ` set rest)" if "u \<in> V" "u \<notin> set q" "(u, v) \<in> edge_rel g" for u v
    using D(7) [OF that] n by auto
  show "d c \<le> d x \<and> d x \<le> d c + 1" if "x \<in> set q" for x by (rule D(8) [OF that])
  show "(c, v) \<in> edge_rel g" if "v \<in> fst ` set rest" for v
    using D(10) [of v] that by auto
qed

lemma dist_inv_next:
  assumes inv: "dist_inv g src dest c [] V (c' # q') d"
  shows "dist_inv g src dest c' (neighbors (adjList g) c') V q' d"
proof (rule dist_invI)
  note D = dist_invD [OF inv]
  show "src \<in> V" "dest \<notin> V" by (rule D)+
  show "c' \<in> V" "set q' \<subseteq> V" using D(4) by auto
  show "0 \<le> d v \<and> (src, v) \<in> edge_rel g ^^ nat (d v)" if "v \<in> V" for v by (rule D(5) [OF that])
  show "d v \<le> int m" if "v \<in> V" "(src, v) \<in> edge_rel g ^^ m" for v m by (rule D(6) [OF that])
  show "v \<in> V \<or> (u = c' \<and> v \<in> fst ` set (neighbors (adjList g) c'))"
    if "u \<in> V" "u \<notin> set q'" "(u, v) \<in> edge_rel g" for u v
  proof (cases "u = c'")
    case True
    with that(3) show ?thesis by (simp add: edge_rel_def)
  next
    case False
    with that(2) have "u \<notin> set (c' # q')" by simp
    from D(7) [OF that(1) this that(3)] show ?thesis by simp
  qed
  show "d c' \<le> d x \<and> d x \<le> d c' + 1" if "x \<in> set q'" for x
  proof -
    from D(9) that have "d c' \<le> d x" by simp
    moreover from D(8) [of x] that have "d x \<le> d c + 1" by simp
    moreover from D(8) [of c'] have "d c \<le> d c'" by simp
    ultimately show ?thesis by simp
  qed
  show "sorted (map d q')" using D(9) by simp
  show "(c', v) \<in> edge_rel g" if "v \<in> fst ` set (neighbors (adjList g) c')" for v
    using that by (simp add: edge_rel_def)
qed

lemma dist_inv_unreachable:
  assumes inv: "dist_inv g src dest c [] V [] d"
  shows "(src, dest) \<notin> edge_rel g ^^ n"
proof
  assume r: "(src, dest) \<in> edge_rel g ^^ n"
  note D = dist_invD [OF inv]
  have cl: "\<forall>u\<in>V. \<forall>v. (u, v) \<in> edge_rel g \<longrightarrow> v \<in> V" using D(7) by auto
  note s = D(1) and d = D(2)
  from closed_reach [OF cl s r] d show False by simp
qed

definition is_shortest :: "'a graph \<Rightarrow> 'a \<Rightarrow> 'a \<Rightarrow> int \<Rightarrow> bool" where
  "is_shortest g src dest r \<longleftrightarrow>
     (r = - 1 \<and> (\<forall>n. (src, dest) \<notin> edge_rel g ^^ n))
     \<or> (0 \<le> r \<and> (src, dest) \<in> edge_rel g ^^ nat r \<and> (\<forall>n. (src, dest) \<in> edge_rel g ^^ n \<longrightarrow> r \<le> int n))"

lemma getDistance_neighbors_correct:
  "dist_inv g src dest c nbrs (visitedQ st) (queueQ st) (distanceQ st) \<Longrightarrow>
   (case getDistance_neighbors dest c nbrs st of
      Return r \<Rightarrow> is_shortest g src dest r
    | Continue st' \<Rightarrow> dist_inv g src dest c [] (visitedQ st') (queueQ st') (distanceQ st'))"
proof (induction nbrs arbitrary: st)
  case Nil
  then show ?case by simp
next
  case (Cons nb rest)
  obtain n w where nb: "nb = (n, w)" by (cases nb)
  show ?case
  proof (cases "n \<in> visitedQ st")
    case True
    from dist_inv_skip [OF Cons.prems [unfolded nb] True]
    show ?thesis using Cons.IH [of st] True nb by simp
  next
    case False
    note disc = dist_inv_discover [OF Cons.prems [unfolded nb] False]
    let ?st = "st\<lparr>visitedQ := insert n (visitedQ st),
                  distanceQ := (distanceQ st)(n := distanceQ st c + 1),
                  queueQ := queueQ st @ [n]\<rparr>"
    show ?thesis
    proof (cases "n = dest")
      case True
      from dist_invD(5) [OF Cons.prems dist_invD(3) [OF Cons.prems]] have "0 \<le> distanceQ st c" by simp
      with disc True have "is_shortest g src dest (distanceQ st c + 1)"
        by (auto simp: is_shortest_def)
      then show ?thesis using False True nb by (simp add: Let_def)
    next
      case nd: False
      from dist_inv_push [OF Cons.prems [unfolded nb] False nd]
      have "dist_inv g src dest c rest (visitedQ ?st) (queueQ ?st) (distanceQ ?st)" by simp
      from Cons.IH [OF this] show ?thesis using False nd nb by (simp add: Let_def)
    qed
  qed
qed

lemma getDistance_while_correct:
  "(case queueQ st of [] \<Rightarrow> dist_inv g src dest c [] (visitedQ st) [] (distanceQ st)
    | c' # q \<Rightarrow> dist_inv g src dest c' (neighbors (adjList g) c') (visitedQ st) q (distanceQ st)) \<Longrightarrow>
   is_shortest g src dest (getDistance_while g dest st)"
proof (induction g dest st arbitrary: c rule: getDistance_while.induct)
  case (1 g dest st)
  show ?case
  proof (cases "queueQ st")
    case Nil
    with "1.prems" have "dist_inv g src dest c [] (visitedQ st) [] (distanceQ st)" by simp
    from dist_inv_unreachable [OF this] show ?thesis
      using Nil by (subst getDistance_while.simps) (simp add: is_shortest_def)
  next
    case (Cons c' q)
    with "1.prems" have inv: "dist_inv g src dest c' (neighbors (adjList g) c') (visitedQ st) q (distanceQ st)"
      by simp
    have step: "\<And>st'. dist_inv g src dest c' [] (visitedQ st') (queueQ st') (distanceQ st') \<Longrightarrow>
        (case queueQ st' of [] \<Rightarrow> dist_inv g src dest c' [] (visitedQ st') [] (distanceQ st')
         | c'' # q \<Rightarrow> dist_inv g src dest c'' (neighbors (adjList g) c'') (visitedQ st') q (distanceQ st'))"
      by (auto split: list.splits dest: dist_inv_next)
    show ?thesis
    proof (cases "fmlookup (adjList g) c'")
      case None
      then have "neighbors (adjList g) c' = []" by (simp add: neighbors_def)
      with inv have "dist_inv g src dest c' [] (visitedQ (st\<lparr>queueQ := q\<rparr>)) (queueQ (st\<lparr>queueQ := q\<rparr>)) (distanceQ (st\<lparr>queueQ := q\<rparr>))"
        by simp
      from "1.IH"(1) [OF Cons None step [OF this]]
      show ?thesis using Cons None by (subst getDistance_while.simps) simp
    next
      case (Some nbrs)
      then have nb: "neighbors (adjList g) c' = nbrs" by (simp add: neighbors_def)
      with inv have "dist_inv g src dest c' nbrs (visitedQ (st\<lparr>queueQ := q\<rparr>)) (queueQ (st\<lparr>queueQ := q\<rparr>)) (distanceQ (st\<lparr>queueQ := q\<rparr>))"
        by simp
      note inner = getDistance_neighbors_correct [OF this]
      show ?thesis
      proof (cases "getDistance_neighbors dest c' nbrs (st\<lparr>queueQ := q\<rparr>)")
        case (Return r)
        with inner show ?thesis using Cons Some by (subst getDistance_while.simps) simp
      next
        case (Continue st')
        with inner have "dist_inv g src dest c' [] (visitedQ st') (queueQ st') (distanceQ st')" by simp
        from "1.IH"(2) [OF Cons Some Continue step [OF this]]
        show ?thesis using Cons Some Continue by (subst getDistance_while.simps) simp
      qed
    qed
  qed
qed

lemma is_shortest_eq: "is_shortest g src dest r \<Longrightarrow> r = shortest_path_length g src dest"
proof -
  assume a: "is_shortest g src dest r"
  show ?thesis
  proof (cases "\<exists>n. (src, dest) \<in> edge_rel g ^^ n")
    case False
    with a show ?thesis by (auto simp: is_shortest_def shortest_path_length_def)
  next
    case True
    with a have r: "0 \<le> r" "(src, dest) \<in> edge_rel g ^^ nat r"
        "\<forall>n. (src, dest) \<in> edge_rel g ^^ n \<longrightarrow> r \<le> int n"
      by (auto simp: is_shortest_def)
    have "(LEAST n. (src, dest) \<in> edge_rel g ^^ n) = nat r"
    proof (rule Least_equality)
      show "(src, dest) \<in> edge_rel g ^^ nat r" by (rule r(2))
    next
      fix y assume "(src, dest) \<in> edge_rel g ^^ y"
      with r(3) have "r \<le> int y" by blast
      then show "nat r \<le> y" by simp
    qed
    with True r(1) show ?thesis by (simp add: shortest_path_length_def)
  qed
qed

text \<open>
  C5. \<open>getDistance(src, dest)\<close> raises \<open>invalid_argument\<close> when an endpoint is not in the
  vertex set; otherwise it returns the least number of edges of a path from \<open>src\<close> to
  \<open>dest\<close> (\<open>0\<close> when they are equal), and \<open>-1\<close> when there is no path.
\<close>

theorem C5_getDistance:
  "getDistance g src dest =
     (if src |\<notin>| vertices g \<or> dest |\<notin>| vertices g then Inl invalid_argument
      else Inr (shortest_path_length g src dest))"
proof (cases "src |\<notin>| vertices g \<or> dest |\<notin>| vertices g")
  case True
  then show ?thesis by (auto simp: getDistance_def)
next
  case False
  show ?thesis
  proof (cases "src = dest")
    case True
    have "(src, src) \<in> edge_rel g ^^ 0" by simp
    then have "is_shortest g src src 0" unfolding is_shortest_def by auto
    from is_shortest_eq [OF this] show ?thesis using False True by (simp add: getDistance_def)
  next
    case ne: False
    let ?st = "\<lparr>queueQ = [src], visitedQ = {src}, distanceQ = (\<lambda>_. 0)(src := 0)\<rparr>"
    have "dist_inv g src dest src (neighbors (adjList g) src) {src} [] ((\<lambda>_. 0)(src := 0))"
      using ne by (intro dist_invI) (auto simp: edge_rel_def)
    then have "is_shortest g src dest (getDistance_while g dest ?st)"
      by (intro getDistance_while_correct [where c = src]) simp
    from is_shortest_eq [OF this] show ?thesis using False ne by (simp add: getDistance_def)
  qed
qed


definition scenario_D :: "int graph" where
  "scenario_D = addEdge (addEdge (addEdge (Graph False False) 1 2 1) 2 3 1) 4 5 1"

theorem C5_getDistance_witness:
  "1 |\<in>| vertices scenario_D \<and> 3 |\<in>| vertices scenario_D \<and> 4 |\<in>| vertices scenario_D
   \<and> shortest_path_length scenario_D 1 3 = 2
   \<and> shortest_path_length scenario_D 1 4 = - 1
   \<and> getDistance scenario_D 1 4 = Inr (- 1)
   \<and> getDistance scenario_D 1 6 = Inl invalid_argument"
proof -
  have v: "1 |\<in>| vertices scenario_D" "3 |\<in>| vertices scenario_D" "4 |\<in>| vertices scenario_D"
    by code_simp+
  have e: "getDistance scenario_D 1 3 = Inr 2" "getDistance scenario_D 1 4 = Inr (- 1)"
      "getDistance scenario_D 1 6 = Inl invalid_argument"
    by code_simp+
  from C5_getDistance [of scenario_D 1 3] v e(1)
  have a: "shortest_path_length scenario_D 1 3 = 2" by simp
  from C5_getDistance [of scenario_D 1 4] v e(2)
  have b: "shortest_path_length scenario_D 1 4 = - 1" by simp
  from v a b e show ?thesis by simp
qed
text \<open>
  C6. On an undirected graph, \<open>addEdge(u, v, w)\<close> followed by \<open>deleteEdge(u, v)\<close> is to
  return the adjacency lists of \<open>u\<close> and \<open>v\<close> to their state before the \<open>addEdge\<close>. It
  does not when an edge between \<open>u\<close> and \<open>v\<close> was already there: \<open>deleteEdge\<close> erases every
  entry for the pair, the old ones with the new one.
\<close>

theorem C6_counterexample:
  "neighbors (adjList (snd (deleteEdge (addEdge (addEdge (Graph False False) 1 2 1) 1 2 5) 1 (2::int)))) 1
   \<noteq> neighbors (adjList (addEdge (Graph False False) 1 (2::int) 1)) 1"
  by code_simp

text \<open>
  C6, amended. On an undirected graph in which no edge between \<open>u\<close> and \<open>v\<close> is stored,
  \<open>addEdge(u, v, w)\<close> followed by \<open>deleteEdge(u, v)\<close> returns \<open>true\<close> and leaves the
  adjacency lists of \<open>u\<close> and of \<open>v\<close> with exactly the entries they had before the
  \<open>addEdge\<close> call.
\<close>

theorem C6_addEdge_deleteEdge:
  assumes "graph_inv g" and "\<not> isDirected g"
    and "v \<notin> fst ` set (neighbors (adjList g) u)" and "u \<notin> fst ` set (neighbors (adjList g) v)"
  shows "fst (deleteEdge (addEdge g u v w) u v) = True
    \<and> neighbors (adjList (snd (deleteEdge (addEdge g u v w) u v))) u = neighbors (adjList g) u
    \<and> neighbors (adjList (snd (deleteEdge (addEdge g u v w) u v))) v = neighbors (adjList g) v"
proof -
  let ?g1 = "addEdge g u v w"
  have v: "u |\<in>| vertices ?g1" "v |\<in>| vertices ?g1" by (simp_all add: vertices_addEdge)
  have d: "\<not> isDirected ?g1" using assms(2) by (simp add: isDirected_addEdge)
  have f: "filter (\<lambda>p. fst p \<noteq> x) xs = xs" if "x \<notin> fst ` set xs" for x :: 'a and xs :: "('a \<times> int) list"
    using that by (induction xs) auto
  have nu: "neighbors (adjList (snd (deleteEdge ?g1 u v))) u = neighbors (adjList g) u"
    using assms(3,4) f [OF assms(3)]
    by (auto simp: neighbors_deleteEdge v d neighbors_addEdge [OF assms(1)] assms(2) intro!: filter_True)
  have nv: "neighbors (adjList (snd (deleteEdge ?g1 u v))) v = neighbors (adjList g) v"
    using assms(3,4) f [OF assms(4)]
    by (auto simp: neighbors_deleteEdge v d neighbors_addEdge [OF assms(1)] assms(2) intro!: filter_True)
  have found: "fst (deleteEdge ?g1 u v) = True"
    using v by (auto simp: deleteEdge_def Let_def neighbors_addEdge [OF assms(1)])
  from found nu nv show ?thesis by simp
qed

definition scenario_roundtrip :: "int graph" where
  "scenario_roundtrip = addEdge (addEdge (Graph False False) 1 2 1) 1 3 1"

theorem C6_addEdge_deleteEdge_witness:
  "graph_inv scenario_roundtrip \<and> \<not> isDirected scenario_roundtrip
   \<and> 3 \<notin> fst ` set (neighbors (adjList scenario_roundtrip) 2)
   \<and> 2 \<notin> fst ` set (neighbors (adjList scenario_roundtrip) 3)
   \<and> neighbors (adjList (addEdge scenario_roundtrip 2 3 9)) 2 = [(1, 1), (3, 9)]
   \<and> neighbors (adjList (addEdge scenario_roundtrip 2 3 9)) 3 = [(1, 1), (2, 9)]
   \<and> fst (deleteEdge (addEdge scenario_roundtrip 2 3 9) 2 3) = True
   \<and> neighbors (adjList (snd (deleteEdge (addEdge scenario_roundtrip 2 3 9) 2 3))) 2 = [(1, 1)]
   \<and> neighbors (adjList (snd (deleteEdge (addEdge scenario_roundtrip 2 3 9) 2 3))) 3 = [(1, 1)]"
proof -
  have h: "graph_inv scenario_roundtrip" "\<not> isDirected scenario_roundtrip"
      "3 \<notin> fst ` set (neighbors (adjList scenario_roundtrip) 2)"
      "2 \<notin> fst ` set (neighbors (adjList scenario_roundtrip) 3)"
    by code_simp+
  have n: "neighbors (adjList scenario_roundtrip) 2 = [(1, 1)]"
      "neighbors (adjList scenario_roundtrip) 3 = [(1, 1)]"
      "neighbors (adjList (addEdge scenario_roundtrip 2 3 9)) 2 = [(1, 1), (3, 9)]"
      "neighbors (adjList (addEdge scenario_roundtrip 2 3 9)) 3 = [(1, 1), (2, 9)]"
    by code_simp+
  from C6_addEdge_deleteEdge [OF h, of 9] h n show ?thesis by simp
qed

text \<open>
  C7. A \<open>CompleteGraph\<close> to which \<open>n\<close> distinct vertices were added is to have
  \<open>n(n-1)/2\<close> edges and degree \<open>n-1\<close> everywhere. The loop of \<open>CompleteGraph::addVertex\<close>
  iterates over the vertex set while \<open>Graph::addEdge\<close> inserts the new vertex into it, so a
  new vertex greater than the least old one is visited too and gets an edge to itself, stored
  twice. Added in ascending order (as \<open>main.cpp\<close> does with \<open>'A'\<close> to \<open>'D'\<close>), two vertices
  give \<open>2\<close> edges and four give \<open>9\<close>; added in descending order four vertices give \<open>6\<close>.
\<close>

theorem C7_CompleteGraph_self_loops:
  "getNumEdges (CompleteGraph_addVertex (CompleteGraph_addVertex CompleteGraph 1) (2::int)) = 2
   \<and> getDegree (CompleteGraph_addVertex (CompleteGraph_addVertex CompleteGraph 1) (2::int)) 2 = Inr 3
   \<and> neighbors (adjList (CompleteGraph_addVertex (CompleteGraph_addVertex CompleteGraph 1) (2::int))) 2
       = [(1, 1), (2, 1), (2, 1)]
   \<and> getNumEdges (fold (\<lambda>v g. CompleteGraph_addVertex g v) [1, 2, 3, 4::int] CompleteGraph) = 9
   \<and> getDegree (fold (\<lambda>v g. CompleteGraph_addVertex g v) [1, 2, 3, 4::int] CompleteGraph) 4 = Inr 5
   \<and> getNumEdges (fold (\<lambda>v g. CompleteGraph_addVertex g v) [4, 3, 2, 1::int] CompleteGraph) = 6"
  by code_simp

text \<open>
  C8. On the directed graph built by \<open>addEdge(1,2)\<close>, \<open>addEdge(1,3)\<close>, \<open>addEdge(2,4)\<close>
  (adjacency \<open>1:[2,3]\<close>, \<open>2:[4]\<close>, \<open>3:[]\<close>), \<open>BFS(1)\<close> returns \<open>[1,2,3,4]\<close> and
  \<open>DFS(1)\<close> returns \<open>[1,2,4,3]\<close>.
\<close>

theorem C8_traversal_orders:
  "BFS (addEdge (addEdge (addEdge (Graph True False) 1 2 1) 1 3 1) 2 4 1) (1::int) = Inr [1, 2, 3, 4]
   \<and> DFS (addEdge (addEdge (addEdge (Graph True False) 1 2 1) 1 3 1) 2 4 1) (1::int) = Inr [1, 2, 4, 3]"
  by code_simp

subsection \<open>The vertex set of a union\<close>

lemma isWeighted_addVertex: "isWeighted (addVertex g v) = isWeighted g"
  by (simp add: addVertex_def)

lemma isWeighted_addEdge: "isWeighted (addEdge g s d w) = isWeighted g"
  by (simp add: addEdge_def Let_def isWeighted_addVertex)

lemma fold_addVertex_facts:
  "vertices (fold (\<lambda>vertex g. addVertex g vertex) vs g) = vertices g |\<union>| fset_of_list vs
   \<and> isDirected (fold (\<lambda>vertex g. addVertex g vertex) vs g) = isDirected g
   \<and> isWeighted (fold (\<lambda>vertex g. addVertex g vertex) vs g) = isWeighted g"
  by (induction vs arbitrary: g) (auto simp: vertices_addVertex isDirected_addVertex isWeighted_addVertex)

lemma addEdge_inside:
  "s |\<in>| vertices g \<Longrightarrow> d |\<in>| vertices g \<Longrightarrow> vertices (addEdge g s d w) = vertices g"
  by (auto simp: vertices_addEdge)

lemma plus_neighbors_facts:
  "src |\<in>| vertices r \<Longrightarrow> fst ` set nbrs \<subseteq> fset (vertices r) \<Longrightarrow>
   vertices (plus_neighbors this src nbrs r) = vertices r
   \<and> isDirected (plus_neighbors this src nbrs r) = isDirected r
   \<and> isWeighted (plus_neighbors this src nbrs r) = isWeighted r"
proof (induction nbrs arbitrary: r)
  case Nil
  then show ?case by simp
next
  case (Cons nb rest)
  have v: "vertices (addEdge r src (fst nb) (snd nb)) = vertices r"
    using Cons.prems by (intro addEdge_inside) auto
  show ?case
    using Cons.IH [of r] Cons.IH [of "addEdge r src (fst nb) (snd nb)"] Cons.prems v
    by (auto simp: isDirected_addEdge isWeighted_addEdge)
qed

lemma fold_plus_neighbors_facts:
  "\<forall>pair \<in> set es. fst pair |\<in>| vertices r \<and> fst ` set (snd pair) \<subseteq> fset (vertices r) \<Longrightarrow>
   vertices (fold (\<lambda>pair g. plus_neighbors this (fst pair) (snd pair) g) es r) = vertices r
   \<and> isDirected (fold (\<lambda>pair g. plus_neighbors this (fst pair) (snd pair) g) es r) = isDirected r
   \<and> isWeighted (fold (\<lambda>pair g. plus_neighbors this (fst pair) (snd pair) g) es r) = isWeighted r"
proof (induction es arbitrary: r)
  case Nil
  then show ?case by simp
next
  case (Cons e rest)
  from Cons.prems have e: "fst e |\<in>| vertices r" "fst ` set (snd e) \<subseteq> fset (vertices r)" by simp_all
  note p = plus_neighbors_facts [OF e, of this]
  have "\<forall>pair \<in> set rest. fst pair |\<in>| vertices (plus_neighbors this (fst e) (snd e) r)
        \<and> fst ` set (snd pair) \<subseteq> fset (vertices (plus_neighbors this (fst e) (snd e) r))"
    using Cons.prems p by simp
  from Cons.IH [OF this] p show ?case by simp
qed

lemma join_neighbors_Graph_facts:
  "src |\<in>| vertices g \<Longrightarrow> fst ` set nbrs \<subseteq> fset (vertices g) \<Longrightarrow>
   fst (join_neighbors Graph_addEdge src nbrs g) = None
   \<and> vertices (snd (join_neighbors Graph_addEdge src nbrs g)) = vertices g"
proof (induction nbrs arbitrary: g)
  case Nil
  then show ?case by simp
next
  case (Cons nb rest)
  have v: "vertices (addEdge g src (fst nb) (snd nb)) = vertices g"
    using Cons.prems by (intro addEdge_inside) auto
  show ?case
    using Cons.IH [of g] Cons.IH [of "addEdge g src (fst nb) (snd nb)"] Cons.prems v
    by (auto simp: Let_def Graph_addEdge_def)
qed

lemma join_entries_Graph_facts:
  "\<forall>pair \<in> set es. fst pair |\<in>| vertices g \<and> fst ` set (snd pair) \<subseteq> fset (vertices g) \<Longrightarrow>
   fst (join_entries Graph_addEdge es g) = None
   \<and> vertices (snd (join_entries Graph_addEdge es g)) = vertices g"
proof (induction es arbitrary: g)
  case Nil
  then show ?case by simp
next
  case (Cons e rest)
  from Cons.prems have e: "fst e |\<in>| vertices g" "fst ` set (snd e) \<subseteq> fset (vertices g)" by simp_all
  note j = join_neighbors_Graph_facts [OF e]
  obtain g' where g': "join_neighbors Graph_addEdge (fst e) (snd e) g = (None, g')" "vertices g' = vertices g"
    using j by (cases "join_neighbors Graph_addEdge (fst e) (snd e) g") auto
  have "\<forall>pair \<in> set rest. fst pair |\<in>| vertices g' \<and> fst ` set (snd pair) \<subseteq> fset (vertices g')"
    using Cons.prems g'(2) by simp
  from Cons.IH [OF this] g' show ?case by simp
qed

lemma wf_graph_entries:
  "wf_graph g \<Longrightarrow> \<forall>pair \<in> set (entries (adjList g)). fst pair |\<in>| vertices g \<and> fst ` set (snd pair) \<subseteq> fset (vertices g)"
  by (auto simp: wf_graph_def graph_inv_def entries_def)

lemma fold_plus_neighbors_wf:
  "wf_graph r \<Longrightarrow> wf_graph (fold (\<lambda>pair g. plus_neighbors this (fst pair) (snd pair) g) es r)"
proof (induction es arbitrary: r)
  case Nil
  then show ?case by simp
next
  case (Cons e rest)
  have "wf_graph r' \<Longrightarrow> wf_graph (plus_neighbors this src nbrs r')" for src nbrs r'
    by (induction nbrs arbitrary: r') (simp_all add: wf_graph_addEdge)
  from Cons.IH [OF this [OF Cons.prems]] show ?case by simp
qed

text \<open>
  C9. For graphs \<open>g1\<close>, \<open>g2\<close> with the same directedness and weightedness, \<open>g1 + g2\<close>
  returns a graph whose vertex set is the union of the two vertex sets. \<open>operator+\<close> is a
  \<open>const\<close> member taking a \<open>const\<close> reference and building a new \<open>Graph<T>\<close>: the model is
  a function of the two operands to the result, with no state of theirs to return. The
  operands are any well-formed graphs, as every graph an object can hold is
  (\<open>wf_graph_reachable\<close>), the results of \<open>operator+\<close> included.
\<close>

theorem C9_operator_plus:
  assumes "wf_graph g1" and "wf_graph g2"
    and "isDirected g1 = isDirected g2" and "isWeighted g1 = isWeighted g2"
  shows "\<exists>r. operator_plus g1 g2 = Inr r \<and> vertices r = vertices g1 |\<union>| vertices g2 \<and> wf_graph r"
proof -
  let ?r1 = "fold (\<lambda>vertex g. addVertex g vertex) (sorted_list_of_fset (vertices g1))
               (Graph (isDirected g1) (isWeighted g1))"
  let ?r2 = "fold (\<lambda>pair g. plus_neighbors g1 (fst pair) (snd pair) g) (entries (adjList g1)) ?r1"
  let ?r3 = "fold (\<lambda>vertex g. addVertex g vertex) (sorted_list_of_fset (vertices g2)) ?r2"
  have r1: "vertices ?r1 = vertices g1" "isDirected ?r1 = isDirected g1" "isWeighted ?r1 = isWeighted g1"
    using fold_addVertex_facts [of "sorted_list_of_fset (vertices g1)" "Graph (isDirected g1) (isWeighted g1)"]
    by (simp_all add: Graph_def)
  have "\<forall>pair \<in> set (entries (adjList g1)). fst pair |\<in>| vertices ?r1 \<and> fst ` set (snd pair) \<subseteq> fset (vertices ?r1)"
    using wf_graph_entries [OF assms(1)] unfolding r1(1) .
  from fold_plus_neighbors_facts [OF this, of g1]
  have r2: "vertices ?r2 = vertices g1" "isDirected ?r2 = isDirected g1" "isWeighted ?r2 = isWeighted g1"
    using r1 by simp_all
  have r3: "vertices ?r3 = vertices g1 |\<union>| vertices g2"
    using fold_addVertex_facts [of "sorted_list_of_fset (vertices g2)" ?r2] r2(1) by simp
  have "\<forall>pair \<in> set (entries (adjList g2)). fst pair |\<in>| vertices ?r3 \<and> fst ` set (snd pair) \<subseteq> fset (vertices ?r3)"
    using wf_graph_entries [OF assms(2)] unfolding r3 by auto
  from join_entries_Graph_facts [OF this]
  have j: "fst (join_entries Graph_addEdge (entries (adjList g2)) ?r3) = None"
    "vertices (snd (join_entries Graph_addEdge (entries (adjList g2)) ?r3)) = vertices g1 |\<union>| vertices g2"
    using r3 by simp_all
  have "join Graph_addEdge ?r2 g2 = join_entries Graph_addEdge (entries (adjList g2)) ?r3"
    using r2 assms(3,4) by (simp add: join_def)
  with j have "operator_plus g1 g2 = Inr (snd (join_entries Graph_addEdge (entries (adjList g2)) ?r3))"
    by (cases "join_entries Graph_addEdge (entries (adjList g2)) ?r3") (simp add: operator_plus_def Let_def)
  moreover have "wf_graph (snd (join_entries Graph_addEdge (entries (adjList g2)) ?r3))"
    by (intro join_entries_preserves [of wf_graph] fold_addVertex_preserves [of wf_graph]
          fold_plus_neighbors_wf wf_graph_Graph)
       (simp_all add: wf_graph_addVertex Graph_addEdge_def wf_graph_addEdge)
  ultimately show ?thesis using j(2) by simp
qed


theorem C9_operator_plus_witness:
  "wf_graph (addEdge (Graph False False) 1 (2::int) 1)
   \<and> wf_graph (addEdge (addVertex (Graph False False) 7) 2 (3::int) 1)
   \<and> isDirected (addEdge (Graph False False) 1 (2::int) 1)
       = isDirected (addEdge (addVertex (Graph False False) 7) 2 (3::int) 1)
   \<and> isWeighted (addEdge (Graph False False) 1 (2::int) 1)
       = isWeighted (addEdge (addVertex (Graph False False) 7) 2 (3::int) 1)
   \<and> (\<exists>r. operator_plus (addEdge (Graph False False) 1 (2::int) 1)
              (addEdge (addVertex (Graph False False) 7) 2 (3::int) 1) = Inr r
          \<and> vertices r = {|1, 2, 3, 7|})"
proof -
  let ?g1 = "addEdge (Graph False False) 1 (2::int) 1"
  let ?g2 = "addEdge (addVertex (Graph False False) 7) 2 (3::int) 1"
  have w: "wf_graph ?g1" "wf_graph ?g2"
    by (intro wf_graph_addEdge wf_graph_addVertex wf_graph_Graph)+
  have f: "isDirected ?g1 = isDirected ?g2" "isWeighted ?g1 = isWeighted ?g2" by code_simp+
  have u: "vertices ?g1 |\<union>| vertices ?g2 = {|1, 2, 3, 7|}" by code_simp
  from C9_operator_plus [OF w f] w f show ?thesis unfolding u by blast
qed
subsection \<open>The cycle check of DirectedAcyclicGraph\<close>

lemma hasCycleDFS_False:
  "hasCycleDFS g v s = Inr r \<Longrightarrow> \<not> fst r \<Longrightarrow>
     insert v (fst s) \<subseteq> fst (snd r) \<and> snd (snd r) \<subseteq> snd s - {v}"
  "hasCycleDFS_for g nbrs s = Inr r \<Longrightarrow> \<not> fst r \<Longrightarrow>
     fst s \<union> fst ` set nbrs \<subseteq> fst (snd r) \<and> snd (snd r) \<subseteq> snd s - fst ` set nbrs"
proof (induction g v s and g nbrs s arbitrary: r and r rule: hasCycleDFS_hasCycleDFS_for.induct)
  case (1 g vertex visited recStack)
  from "1.prems" obtain nbrs r' where
    l: "fmlookup (adjList g) vertex = Some nbrs"
    and r': "hasCycleDFS_for g nbrs (insert vertex visited, insert vertex recStack) = Inr r'"
    and f: "\<not> fst r'"
    and r: "r = (False, fst (snd r'), snd (snd r') - {vertex})"
    by (auto split: option.splits sum.splits if_splits)
  from "1.IH" [OF l r' f] show ?case unfolding r by auto
next
  case (2 g s)
  then show ?case by auto
next
  case (3 g neighbor rest visited recStack)
  show ?case
  proof (cases "fst neighbor \<notin> visited")
    case True
    with "3.prems" obtain r1 where
      r1: "hasCycleDFS g (fst neighbor) (visited, recStack) = Inr r1"
      and f1: "\<not> fst r1"
      and r: "hasCycleDFS_for g rest (snd r1) = Inr r"
      by (auto split: sum.splits if_splits)
    from "3.IH"(1) [OF True r1 f1]
    have a: "insert (fst neighbor) visited \<subseteq> fst (snd r1)" "snd (snd r1) \<subseteq> recStack - {fst neighbor}"
      by simp_all
    from "3.IH"(2) [OF True r1 f1 r "3.prems"(2)]
    have b: "fst (snd r1) \<union> fst ` set rest \<subseteq> fst (snd r)" "snd (snd r) \<subseteq> snd (snd r1) - fst ` set rest"
      by simp_all
    from a b show ?thesis by auto
  next
    case False
    with "3.prems" have n: "fst neighbor \<notin> recStack" and r: "hasCycleDFS_for g rest (visited, recStack) = Inr r"
      by (auto split: if_splits)
    from "3.IH"(3) [OF False n r "3.prems"(2)] False n show ?thesis by auto
  qed
qed

lemma hasCycleDFS_no_throw:
  assumes wf: "wf_graph g"
  shows "v |\<in>| vertices g \<Longrightarrow> \<not> isl (hasCycleDFS g v st)"
    and "fst ` set nbrs \<subseteq> fset (vertices g) \<Longrightarrow> \<not> isl (hasCycleDFS_for g nbrs st)"
proof -
  have "(g' = g \<longrightarrow> v |\<in>| vertices g \<longrightarrow> \<not> isl (hasCycleDFS g' v st))"
       "(g' = g \<longrightarrow> fst ` set nbrs \<subseteq> fset (vertices g) \<longrightarrow> \<not> isl (hasCycleDFS_for g' nbrs st))" for g'
  proof (induction g' v st and g' nbrs st rule: hasCycleDFS_hasCycleDFS_for.induct)
    case (1 g' vertex visited recStack)
    show ?case
    proof (intro impI)
      assume e: "g' = g" and v: "vertex |\<in>| vertices g"
      from wf v obtain nbrs where l: "fmlookup (adjList g) vertex = Some nbrs"
        by (cases "fmlookup (adjList g) vertex") (auto simp: wf_graph_def graph_inv_def dest: fmdom_notI)
      then have "neighbors (adjList g) vertex = nbrs" by (simp add: neighbors_def)
      with wf have "fst ` set nbrs \<subseteq> fset (vertices g)" unfolding wf_graph_def by blast
      with "1.IH" [of nbrs] e l
      have "\<not> isl (hasCycleDFS_for g nbrs (insert vertex visited, insert vertex recStack))" by simp
      then show "\<not> isl (hasCycleDFS g' vertex (visited, recStack))"
        using e l by (auto split: sum.splits)
    qed
  next
    case (2 g' st)
    then show ?case by simp
  next
    case (3 g' neighbor rest visited recStack)
    show ?case
    proof (intro impI)
      assume e: "g' = g" and t: "fst ` set (neighbor # rest) \<subseteq> fset (vertices g)"
      then have n: "fst neighbor |\<in>| vertices g" and r: "fst ` set rest \<subseteq> fset (vertices g)" by auto
      show "\<not> isl (hasCycleDFS_for g' (neighbor # rest) (visited, recStack))"
      proof (cases "fst neighbor \<notin> visited")
        case True
        from "3.IH"(1) [OF True] e n
        have h: "\<not> isl (hasCycleDFS g (fst neighbor) (visited, recStack))" by simp
        then obtain r' where r': "hasCycleDFS g (fst neighbor) (visited, recStack) = Inr r'"
          by (cases "hasCycleDFS g (fst neighbor) (visited, recStack)") simp_all
        show ?thesis
        proof (cases "fst r'")
          case t: True
          with r' e True show ?thesis by (simp del: hasCycleDFS.simps)
        next
          case f: False
          from "3.IH"(2) [OF True _ f, of ] r' e r
          have "\<not> isl (hasCycleDFS_for g rest (snd r'))" by simp
          with r' e True f show ?thesis by (simp del: hasCycleDFS.simps)
        qed
      next
        case False
        with "3.IH"(3) e r show ?thesis by simp
      qed
    qed
  qed
  then show "v |\<in>| vertices g \<Longrightarrow> \<not> isl (hasCycleDFS g v st)"
    and "fst ` set nbrs \<subseteq> fset (vertices g) \<Longrightarrow> \<not> isl (hasCycleDFS_for g nbrs st)"
    by simp_all
qed

lemma DirectedAcyclicGraph_scan_no_throw:
  "wf_graph g \<Longrightarrow> set vs \<subseteq> fset (vertices g) \<Longrightarrow> \<not> isl (DirectedAcyclicGraph_scan g vs st)"
proof (induction vs arbitrary: st)
  case Nil
  then show ?case by simp
next
  case (Cons v vs)
  obtain visited recStack where st: "st = (visited, recStack)" by (cases st)
  from Cons.prems have v: "v |\<in>| vertices g" and vs: "set vs \<subseteq> fset (vertices g)" by auto
  from hasCycleDFS_no_throw(1) [OF Cons.prems(1) v, of "(visited, recStack)"]
  obtain r where r: "hasCycleDFS g v (visited, recStack) = Inr r"
    by (cases "hasCycleDFS g v (visited, recStack)") simp_all
  from Cons.IH [OF Cons.prems(1) vs] r show ?case unfolding st
    by (simp del: hasCycleDFS.simps)
qed

lemma erase_pushed:
  assumes "fmlookup m s = Some xs" and "d \<notin> fst ` set xs"
  shows "erase_target (push_back m s (d, w)) s d = m"
proof (rule fmap_ext)
  fix k
  have f: "filter (\<lambda>p. fst p \<noteq> d) xs = xs" using assms(2) by (induction xs) auto
  have n: "neighbors m s = xs" by (simp add: neighbors_def assms(1))
  show "fmlookup (erase_target (push_back m s (d, w)) s d) k = fmlookup m k"
  proof (cases "k = s")
    case True
    then show ?thesis by (simp add: erase_target_def neighbors_push_back n f assms(1))
  next
    case False
    then show ?thesis by (simp add: erase_target_def push_back_def)
  qed
qed

lemma addVertex_twice_lookup:
  "graph_inv g \<Longrightarrow> fmlookup (adjList (addVertex (addVertex g s) d)) k =
     (if k = s \<or> k = d then Some (neighbors (adjList g) k) else fmlookup (adjList g) k)"
proof -
  assume g: "graph_inv g"
  have a: "fmlookup (adjList (addVertex h v)) k' =
      (if k' = v then Some (neighbors (adjList h) k') else fmlookup (adjList h) k')" if "graph_inv h" for h v k'
  proof (cases "v |\<in>| vertices h")
    case True
    with that have "v |\<in>| fmdom (adjList h)" by (simp add: graph_inv_def)
    then obtain xs where "fmlookup (adjList h) v = Some xs" by auto
    with True show ?thesis by (simp add: addVertex_def neighbors_def)
  next
    case False
    with that have "v |\<notin>| fmdom (adjList h)" by (simp add: graph_inv_def)
    then have "fmlookup (adjList h) v = None" by auto
    with False show ?thesis by (simp add: addVertex_def neighbors_def)
  qed
  show ?thesis
    by (simp add: a [OF graph_inv_addVertex [OF g]] a [OF g] neighbors_addVertex [OF g])
qed

lemma present_edge_endpoints:
  assumes "wf_graph g" and "d \<in> fst ` set (neighbors (adjList g) s)"
  shows "s |\<in>| vertices g" and "d |\<in>| vertices g"
proof -
  from assms(2) have "fmlookup (adjList g) s \<noteq> None"
    by (cases "fmlookup (adjList g) s") (simp_all add: neighbors_def)
  then have "s |\<in>| fmdom (adjList g)" by (auto intro: fmdomI)
  with assms(1) show "s |\<in>| vertices g" by (simp add: wf_graph_def graph_inv_def)
  from assms show "d |\<in>| vertices g" unfolding wf_graph_def by blast
qed

subsection \<open>What the cycle scan of DirectedAcyclicGraph decides\<close>

lemma edge_rel_iff: "(u, v) \<in> edge_rel g \<longleftrightarrow> v \<in> fst ` set (neighbors (adjList g) u)"
  by (simp add: edge_rel_def)

lemma edge_rel_lookup: "fmlookup (adjList g) u = Some nbrs \<Longrightarrow> (u, v) \<in> edge_rel g \<longleftrightarrow> v \<in> fst ` set nbrs"
  by (simp add: edge_rel_def neighbors_def)

text \<open>A \<open>true\<close> from \<open>hasCycleDFS\<close> comes with a cycle, when every vertex on the recursion stack reaches the vertex entered.\<close>

lemma hasCycleDFS_True:
  "hasCycleDFS g v s = Inr r \<Longrightarrow> fst r \<Longrightarrow> \<forall>x \<in> snd s. (x, v) \<in> (edge_rel g)\<^sup>+
     \<Longrightarrow> \<not> acyclic (edge_rel g)"
  "hasCycleDFS_for g nbrs s = Inr r \<Longrightarrow> fst r \<Longrightarrow>
     (\<exists>v. (\<forall>n \<in> fst ` set nbrs. (v, n) \<in> edge_rel g) \<and> (\<forall>x \<in> snd s. (x, v) \<in> (edge_rel g)\<^sup>*))
     \<Longrightarrow> \<not> acyclic (edge_rel g)"
proof (induction g v s and g nbrs s arbitrary: r and r rule: hasCycleDFS_hasCycleDFS_for.induct)
  case (1 g vertex visited recStack)
  from "1.prems"(1,2) obtain nbrs r' where
    l: "fmlookup (adjList g) vertex = Some nbrs"
    and r': "hasCycleDFS_for g nbrs (insert vertex visited, insert vertex recStack) = Inr r'"
    and f: "fst r'"
    by (auto split: option.splits sum.splits if_splits)
  have "\<forall>n \<in> fst ` set nbrs. (vertex, n) \<in> edge_rel g" using edge_rel_lookup [OF l] by blast
  moreover have "\<forall>x \<in> snd (insert vertex visited, insert vertex recStack). (x, vertex) \<in> (edge_rel g)\<^sup>*"
    using "1.prems"(3) by auto
  ultimately show ?case using "1.IH" [OF l r' f] by blast
next
  case (2 g s)
  then show ?case by auto
next
  case (3 g neighbor rest visited recStack)
  from "3.prems"(3) obtain v where
    v: "\<forall>n \<in> fst ` set (neighbor # rest). (v, n) \<in> edge_rel g" "\<forall>x \<in> recStack. (x, v) \<in> (edge_rel g)\<^sup>*"
    by auto
  from v(1) have e: "(v, fst neighbor) \<in> edge_rel g" by simp
  show ?case
  proof (cases "fst neighbor \<notin> visited")
    case True
    with "3.prems"(1) obtain r1 where
      r1: "hasCycleDFS g (fst neighbor) (visited, recStack) = Inr r1"
      by (auto split: sum.splits)
    show ?thesis
    proof (cases "fst r1")
      case t: True
      have "\<forall>x \<in> snd (visited, recStack). (x, fst neighbor) \<in> (edge_rel g)\<^sup>+"
        using v(2) e by (auto intro: rtrancl_into_trancl1)
      from "3.IH"(1) [OF True r1 t this] show ?thesis .
    next
      case f: False
      with "3.prems"(1) True r1 have rr: "hasCycleDFS_for g rest (snd r1) = Inr r" by simp
      from hasCycleDFS_False(1) [OF r1 f] have "snd (snd r1) \<subseteq> recStack" by auto
      with v have "\<exists>v. (\<forall>n \<in> fst ` set rest. (v, n) \<in> edge_rel g) \<and> (\<forall>x \<in> snd (snd r1). (x, v) \<in> (edge_rel g)\<^sup>*)"
        by (intro exI [of _ v]) auto
      from "3.IH"(2) [OF True r1 f rr "3.prems"(2) this] show ?thesis .
    qed
  next
    case False
    show ?thesis
    proof (cases "fst neighbor \<in> recStack")
      case True
      with v(2) have "(fst neighbor, v) \<in> (edge_rel g)\<^sup>*" by blast
      from this e have "(fst neighbor, fst neighbor) \<in> (edge_rel g)\<^sup>+" by (rule rtrancl_into_trancl1)
      then show ?thesis by (auto simp: acyclic_def)
    next
      case n: False
      with "3.prems"(1) False have rr: "hasCycleDFS_for g rest (visited, recStack) = Inr r" by simp
      from v have "\<exists>v. (\<forall>n \<in> fst ` set rest. (v, n) \<in> edge_rel g) \<and> (\<forall>x \<in> snd (visited, recStack). (x, v) \<in> (edge_rel g)\<^sup>*)"
        by (intro exI [of _ v]) auto
      from "3.IH"(3) [OF False n rr "3.prems"(2) this] show ?thesis .
    qed
  qed
qed

text \<open>
  A set of finished vertices is \<open>settled\<close> when no edge leaves it and no cycle passes through
  it. The visited vertices off the recursion stack are settled throughout a search that
  answers \<open>false\<close>.
\<close>

definition settled :: "'a graph \<Rightarrow> 'a set \<Rightarrow> bool" where
  "settled g B \<longleftrightarrow> (\<forall>u \<in> B. \<forall>w. (u, w) \<in> edge_rel g \<longrightarrow> w \<in> B) \<and> (\<forall>u \<in> B. (u, u) \<notin> (edge_rel g)\<^sup>+)"

lemma settled_reach:
  assumes "settled g B" and "u \<in> B" and "(u, w) \<in> (edge_rel g)\<^sup>*"
  shows "w \<in> B"
  using assms(3,1,2) by (induction rule: rtrancl_induct) (auto simp: settled_def)

lemma settled_finish:
  assumes B: "settled g B" and v: "v \<notin> B" and succ: "\<forall>w. (v, w) \<in> edge_rel g \<longrightarrow> w \<in> B"
  shows "settled g (insert v B)"
proof -
  have "(v, v) \<notin> (edge_rel g)\<^sup>+"
  proof
    assume "(v, v) \<in> (edge_rel g)\<^sup>+"
    then obtain s where s: "(v, s) \<in> edge_rel g" "(s, v) \<in> (edge_rel g)\<^sup>*"
      by (meson tranclD)
    from succ s(1) have "s \<in> B" by blast
    from settled_reach [OF B this s(2)] v show False by simp
  qed
  with B succ show ?thesis unfolding settled_def by blast
qed

lemma hasCycleDFS_settled:
  "hasCycleDFS g v s = Inr r \<Longrightarrow> \<not> fst r \<Longrightarrow> v \<notin> fst s \<Longrightarrow> snd s \<subseteq> fst s \<Longrightarrow> settled g (fst s - snd s)
     \<Longrightarrow> snd (snd r) = snd s \<and> insert v (fst s) \<subseteq> fst (snd r) \<and> settled g (fst (snd r) - snd s)"
  "hasCycleDFS_for g nbrs s = Inr r \<Longrightarrow> \<not> fst r \<Longrightarrow> snd s \<subseteq> fst s \<Longrightarrow> settled g (fst s - snd s)
     \<Longrightarrow> snd (snd r) = snd s \<and> fst s \<subseteq> fst (snd r) \<and> settled g (fst (snd r) - snd s)
         \<and> fst ` set nbrs \<subseteq> fst (snd r) - snd s"
proof (induction g v s and g nbrs s arbitrary: r and r rule: hasCycleDFS_hasCycleDFS_for.induct)
  case (1 g vertex visited recStack)
  from "1.prems"(1,2) obtain nbrs r' where
    l: "fmlookup (adjList g) vertex = Some nbrs"
    and r': "hasCycleDFS_for g nbrs (insert vertex visited, insert vertex recStack) = Inr r'"
    and f: "\<not> fst r'"
    and r: "r = (False, fst (snd r'), snd (snd r') - {vertex})"
    by (auto split: option.splits sum.splits if_splits)
  from "1.prems"(3,4) have vr: "vertex \<notin> recStack" "vertex \<notin> visited" by auto
  have eq: "insert vertex visited - insert vertex recStack = visited - recStack"
    using vr by auto
  have "snd (insert vertex visited, insert vertex recStack) \<subseteq> fst (insert vertex visited, insert vertex recStack)"
    using "1.prems"(4) by auto
  moreover have "settled g (fst (insert vertex visited, insert vertex recStack) - snd (insert vertex visited, insert vertex recStack))"
    using "1.prems"(5) eq by simp
  ultimately have ih: "snd (snd r') = insert vertex recStack" "insert vertex visited \<subseteq> fst (snd r')"
      "settled g (fst (snd r') - insert vertex recStack)"
      "fst ` set nbrs \<subseteq> fst (snd r') - insert vertex recStack"
    using "1.IH" [OF l r' f] by simp_all
  have succ: "\<forall>w. (vertex, w) \<in> edge_rel g \<longrightarrow> w \<in> fst (snd r') - insert vertex recStack"
    using edge_rel_lookup [OF l] ih(4) by blast
  have "settled g (insert vertex (fst (snd r') - insert vertex recStack))"
    by (rule settled_finish [OF ih(3) _ succ]) simp
  moreover have "insert vertex (fst (snd r') - insert vertex recStack) = fst (snd r') - recStack"
    using vr ih(2) by auto
  ultimately have "settled g (fst (snd r') - recStack)" by simp
  with ih vr show ?case unfolding r by auto
next
  case (2 g s)
  then show ?case by auto
next
  case (3 g neighbor rest visited recStack)
  show ?case
  proof (cases "fst neighbor \<notin> visited")
    case True
    with "3.prems"(1,2) obtain r1 where
      r1: "hasCycleDFS g (fst neighbor) (visited, recStack) = Inr r1"
      and f1: "\<not> fst r1"
      and rr: "hasCycleDFS_for g rest (snd r1) = Inr r"
      by (auto split: sum.splits if_splits)
    from "3.IH"(1) [OF True r1 f1] True "3.prems"(3,4)
    have a: "snd (snd r1) = recStack" "insert (fst neighbor) visited \<subseteq> fst (snd r1)"
        "settled g (fst (snd r1) - recStack)"
      by simp_all
    have "snd (snd r1) \<subseteq> fst (snd r1)" using a "3.prems"(3) by auto
    moreover have "settled g (fst (snd r1) - snd (snd r1))" using a by simp
    ultimately have b: "snd (snd r) = recStack" "fst (snd r1) \<subseteq> fst (snd r)"
        "settled g (fst (snd r) - recStack)" "fst ` set rest \<subseteq> fst (snd r) - recStack"
      using "3.IH"(2) [OF True r1 f1 rr "3.prems"(2)] a(1) by simp_all
    have "fst neighbor \<notin> recStack" using True "3.prems"(3) by auto
    with a b show ?thesis by auto
  next
    case False
    with "3.prems"(1,2) have n: "fst neighbor \<notin> recStack" and rr: "hasCycleDFS_for g rest (visited, recStack) = Inr r"
      by (auto split: if_splits)
    from "3.IH"(3) [OF False n rr "3.prems"(2)] "3.prems"(3,4)
    have b: "snd (snd r) = recStack" "visited \<subseteq> fst (snd r)"
        "settled g (fst (snd r) - recStack)" "fst ` set rest \<subseteq> fst (snd r) - recStack"
      by simp_all
    with False n show ?thesis by auto
  qed
qed

lemma DirectedAcyclicGraph_scan_True:
  "DirectedAcyclicGraph_scan g vs (V, {}) = Inr True \<Longrightarrow> \<not> acyclic (edge_rel g)"
proof (induction vs arbitrary: V)
  case Nil
  then show ?case by simp
next
  case (Cons v vs)
  show ?case
  proof (cases "v \<notin> V")
    case True
    with Cons.prems obtain r where r: "hasCycleDFS g v (V, {}) = Inr r"
      by (auto simp del: hasCycleDFS.simps split: sum.splits)
    show ?thesis
    proof (cases "fst r")
      case t: True
      from hasCycleDFS_True(1) [OF r t] show ?thesis by simp
    next
      case f: False
      from hasCycleDFS_False(1) [OF r f] have "snd (snd r) = {}" by auto
      then have "snd r = (fst (snd r), {})" by (cases r) auto
      with Cons.prems True r f have "DirectedAcyclicGraph_scan g vs (fst (snd r), {}) = Inr True"
        by (simp del: hasCycleDFS.simps)
      from Cons.IH [OF this] show ?thesis .
    qed
  next
    case False
    with Cons.prems have "DirectedAcyclicGraph_scan g vs (V, {}) = Inr True" by simp
    from Cons.IH [OF this] show ?thesis .
  qed
qed

lemma DirectedAcyclicGraph_scan_False:
  "DirectedAcyclicGraph_scan g vs (V, {}) = Inr False \<Longrightarrow> settled g V
   \<Longrightarrow> \<exists>V'. settled g V' \<and> V \<union> set vs \<subseteq> V'"
proof (induction vs arbitrary: V)
  case Nil
  then show ?case by auto
next
  case (Cons v vs)
  show ?case
  proof (cases "v \<notin> V")
    case True
    with Cons.prems(1) obtain r where r: "hasCycleDFS g v (V, {}) = Inr r" and f: "\<not> fst r"
      and rest: "DirectedAcyclicGraph_scan g vs (snd r) = Inr False"
      by (auto simp del: hasCycleDFS.simps split: sum.splits if_splits)
    from hasCycleDFS_settled(1) [OF r f] True Cons.prems(2)
    have a: "snd (snd r) = {}" "insert v V \<subseteq> fst (snd r)" "settled g (fst (snd r))" by simp_all
    from a(1) have "snd r = (fst (snd r), {})" by (cases r) auto
    with rest have "DirectedAcyclicGraph_scan g vs (fst (snd r), {}) = Inr False" by simp
    from Cons.IH [OF this a(3)] a(2) show ?thesis by auto
  next
    case False
    with Cons.prems(1) have "DirectedAcyclicGraph_scan g vs (V, {}) = Inr False" by simp
    from Cons.IH [OF this Cons.prems(2)] False show ?thesis by auto
  qed
qed

text \<open>
  On a well-formed graph the scan over all vertices returns, and finds a cycle exactly when
  the stored edges have one.
\<close>

lemma DirectedAcyclicGraph_scan_decides:
  assumes wf: "wf_graph g"
  shows "DirectedAcyclicGraph_scan g (sorted_list_of_fset (vertices g)) ({}, {}) = Inr (\<not> acyclic (edge_rel g))"
proof -
  from DirectedAcyclicGraph_scan_no_throw [OF wf, of "sorted_list_of_fset (vertices g)" "({}, {})"]
  obtain b where b: "DirectedAcyclicGraph_scan g (sorted_list_of_fset (vertices g)) ({}, {}) = Inr b"
    by (cases "DirectedAcyclicGraph_scan g (sorted_list_of_fset (vertices g)) ({}, {})") simp_all
  show ?thesis
  proof (cases b)
    case True
    with b DirectedAcyclicGraph_scan_True [of g _ "{}"] show ?thesis by simp
  next
    case False
    have "settled g {}" by (simp add: settled_def)
    moreover from b False
    have "DirectedAcyclicGraph_scan g (sorted_list_of_fset (vertices g)) ({}, {}) = Inr False" by simp
    ultimately obtain V' where V': "settled g V'" "fset (vertices g) \<subseteq> V'"
      using DirectedAcyclicGraph_scan_False [of g "sorted_list_of_fset (vertices g)" "{}"] by auto
    have "acyclic (edge_rel g)"
      unfolding acyclic_def
    proof (intro allI notI)
      fix x assume c: "(x, x) \<in> (edge_rel g)\<^sup>+"
      then obtain y where "(x, y) \<in> edge_rel g" by (meson tranclD)
      then have "neighbors (adjList g) x \<noteq> []" by (auto simp: edge_rel_def)
      then have "x |\<in>| fmdom (adjList g)" by (auto simp: neighbors_def split: option.splits intro: fmdomI)
      with wf have "x |\<in>| vertices g" by (simp add: wf_graph_def graph_inv_def)
      with V'(2) have "x \<in> V'" by auto
      with V'(1) c show False by (auto simp: settled_def)
    qed
    with b False show ?thesis by simp
  qed
qed

subsection \<open>The colouring check of BipartiteGraph\<close>

lemma map_touch_present: "k \<in> dom m \<Longrightarrow> map_touch m k = m"
  by (auto simp: map_touch_def)

lemma map_at_le: "m \<subseteq>\<^sub>m m' \<Longrightarrow> k \<in> dom m \<Longrightarrow> map_at m' k = map_at m k"
  by (auto simp: map_at_def map_le_def split: option.splits)

lemma isBipartiteCheck_neighbors_Continue:
  "isBipartiteCheck_neighbors v xs (q, c) = Continue (q', c') \<Longrightarrow> v \<in> dom c \<Longrightarrow>
   c \<subseteq>\<^sub>m c' \<and> set q' \<subseteq> set q \<union> fst ` set xs \<and> set q' \<subseteq> set q \<union> dom c'
   \<and> (\<forall>t \<in> fst ` set xs. t \<in> dom c' \<and> map_at c' t \<noteq> map_at c' v)"
proof (induction xs arbitrary: q c)
  case Nil
  then show ?case by simp
next
  case (Cons x xs)
  obtain t w where x: "x = (t, w)" by (cases x)
  show ?case
  proof (cases "c t = None")
    case True
    let ?c2 = "c(t \<mapsto> 1 - map_at c v)"
    from Cons.prems True have step: "isBipartiteCheck_neighbors v xs (q @ [t], ?c2) = Continue (q', c')"
      by (simp add: x map_touch_present)
    have v2: "v \<in> dom ?c2" using Cons.prems(2) by simp
    note IH = Cons.IH [OF step v2]
    note ih = IH [THEN conjunct1] IH [THEN conjunct2, THEN conjunct1]
      IH [THEN conjunct2, THEN conjunct2, THEN conjunct1]
      IH [THEN conjunct2, THEN conjunct2, THEN conjunct2]
    have le: "c \<subseteq>\<^sub>m ?c2" using True by (auto simp: map_le_def)
    have cc: "c \<subseteq>\<^sub>m c'" by (rule map_le_trans [OF le ih(1)])
    have tv: "t \<noteq> v" using True Cons.prems(2) by auto
    have t2: "t \<in> dom ?c2" by simp
    have "map_at c' t = map_at ?c2 t" by (rule map_at_le [OF ih(1) t2])
    also have "\<dots> = 1 - map_at c v" by (simp add: map_at_def)
    finally have a: "map_at c' t = 1 - map_at c v" .
    have b: "map_at c' v = map_at c v" by (rule map_at_le [OF cc Cons.prems(2)])
    have td: "t \<in> dom c'" using ih(1) t2 by (auto simp: map_le_def dom_def)
    from a b have "map_at c' t \<noteq> map_at c' v" by presburger
    with cc ih td show ?thesis unfolding x by auto
  next
    case False
    then have td: "t \<in> dom c" by auto
    from Cons.prems False have ne: "map_at c t \<noteq> map_at c v"
      by (auto simp: x split: if_splits)
    from Cons.prems False ne have step: "isBipartiteCheck_neighbors v xs (q, c) = Continue (q', c')"
      by (simp add: x map_touch_present td)
    note IH = Cons.IH [OF step Cons.prems(2)]
    note ih = IH [THEN conjunct1] IH [THEN conjunct2, THEN conjunct1]
      IH [THEN conjunct2, THEN conjunct2, THEN conjunct1]
      IH [THEN conjunct2, THEN conjunct2, THEN conjunct2]
    have "map_at c' t = map_at c t" "map_at c' v = map_at c v"
      by (rule map_at_le [OF ih(1) td], rule map_at_le [OF ih(1) Cons.prems(2)])
    with ne have "map_at c' t \<noteq> map_at c' v" by simp
    moreover have "t \<in> dom c'" using ih(1) td by (auto simp: map_le_def dom_def)
    ultimately show ?thesis using ih unfolding x by auto
  qed
qed

lemma isBipartiteCheck_while_no_throw:
  assumes wf: "wf_graph g"
  shows "set (fst s) \<subseteq> fset (vertices g) \<Longrightarrow> set (fst s) \<subseteq> dom (snd s) \<Longrightarrow> \<not> isl (isBipartiteCheck_while g s)"
proof -
  have "g' = g \<longrightarrow> set (fst s) \<subseteq> fset (vertices g) \<longrightarrow> set (fst s) \<subseteq> dom (snd s)
        \<longrightarrow> \<not> isl (isBipartiteCheck_while g' s)" for g'
  proof (induction g' s rule: isBipartiteCheck_while.induct)
    case (1 g' q color)
    show ?case
    proof (intro impI)
      assume e: "g' = g" and inV: "set (fst (q, color)) \<subseteq> fset (vertices g)"
        and inv: "set (fst (q, color)) \<subseteq> dom (snd (q, color))"
      show "\<not> isl (isBipartiteCheck_while g' (q, color))"
      proof (cases q)
        case Nil
        then show ?thesis by simp
      next
        case (Cons vertex q')
        from inv Cons have v: "vertex \<in> dom color" and q': "set q' \<subseteq> dom color" by auto
        from inV Cons have vV: "vertex |\<in>| vertices g" and q'V: "set q' \<subseteq> fset (vertices g)" by auto
        from wf vV obtain xs where l: "fmlookup (adjList g) vertex = Some xs"
          by (cases "fmlookup (adjList g) vertex") (auto simp: wf_graph_def graph_inv_def dest: fmdom_notI)
        then have "neighbors (adjList g) vertex = xs" by (simp add: neighbors_def)
        with wf have t: "fst ` set xs \<subseteq> fset (vertices g)" unfolding wf_graph_def by blast
        show ?thesis
        proof (cases "isBipartiteCheck_neighbors vertex xs (q', color)")
          case (Return b)
          with l Cons e show ?thesis by simp
        next
          case (Continue s')
          obtain q2 c2 where s': "s' = (q2, c2)" by (cases s')
          note C = isBipartiteCheck_neighbors_Continue [OF Continue [unfolded s'] v]
          from C q' have a: "set q2 \<subseteq> dom c2" by (auto simp: map_le_def dom_def)
          from C q'V t have b: "set q2 \<subseteq> fset (vertices g)" by blast
          from "1.IH" [OF Cons l [unfolded e [symmetric]] Continue] e a b s'
          have "\<not> isl (isBipartiteCheck_while g s')" by simp
          with l Cons e Continue show ?thesis by simp
        qed
      qed
    qed
  qed
  then show "set (fst s) \<subseteq> fset (vertices g) \<Longrightarrow> set (fst s) \<subseteq> dom (snd s) \<Longrightarrow> \<not> isl (isBipartiteCheck_while g s)"
    by simp
qed

lemma isBipartiteCheck_starts_no_throw:
  "wf_graph g \<Longrightarrow> set vs \<subseteq> fset (vertices g) \<Longrightarrow> \<not> isl (isBipartiteCheck_starts g vs color)"
proof (induction vs arbitrary: color)
  case Nil
  then show ?case by simp
next
  case (Cons v vs)
  from Cons.prems have vs: "set vs \<subseteq> fset (vertices g)" and v: "v |\<in>| vertices g" by auto
  have "\<not> isl (isBipartiteCheck_while g ([v], color(v \<mapsto> 0)))"
    using v by (intro isBipartiteCheck_while_no_throw [OF Cons.prems(1)]) simp_all
  then obtain r where r: "isBipartiteCheck_while g ([v], color(v \<mapsto> 0)) = Inr r"
    by (cases "isBipartiteCheck_while g ([v], color(v \<mapsto> 0))") simp_all
  from Cons.IH [OF Cons.prems(1) vs] r show ?case
    by (simp del: isBipartiteCheck_while.simps split: flow.splits)
qed

lemma isBipartiteCheck_no_throw: "wf_graph g \<Longrightarrow> \<not> isl (isBipartiteCheck g)"
  by (simp add: isBipartiteCheck_def isBipartiteCheck_starts_no_throw)

lemma erase_pushed_both:
  assumes s: "fmlookup m s = Some xs" and d: "fmlookup m d = Some ys"
    and fs: "d \<notin> fst ` set xs" and fd: "s \<notin> fst ` set ys"
  shows "erase_target (erase_target (push_back (push_back m s (d, w)) d (s, w)) s d) d s = m"
proof (rule fmap_ext)
  fix k
  have f: "filter (\<lambda>p. fst p \<noteq> d) xs = xs" "filter (\<lambda>p. fst p \<noteq> s) ys = ys"
    using fs fd by (auto simp: filter_id_conv)
  have n: "neighbors m s = xs" "neighbors m d = ys" by (simp_all add: neighbors_def s d)
  let ?M = "erase_target (erase_target (push_back (push_back m s (d, w)) d (s, w)) s d) d s"
  have l: "fmlookup ?M k = (if k = s \<or> k = d then Some (neighbors ?M k) else fmlookup m k)"
    by (simp add: erase_target_def push_back_def neighbors_fmupd)
  show "fmlookup ?M k = fmlookup m k"
  proof (cases "s = d")
    case True
    with s d have "ys = xs" by simp
    with True f n s show ?thesis
      unfolding l by (simp add: neighbors_erase_target neighbors_push_back)
  next
    case False
    with f n s d show ?thesis
      unfolding l by (simp add: neighbors_erase_target neighbors_push_back)
  qed
qed

subsection \<open>What the colouring check of BipartiteGraph decides\<close>

text \<open>
  A set of edges admits a 2-colouring when the vertices can be given two colours so that
  the two ends of every edge differ; an edge from a vertex to itself excludes it.
\<close>

definition two_colorable :: "('a \<times> 'a) set \<Rightarrow> bool" where
  "two_colorable E \<longleftrightarrow> (\<exists>\<chi> :: 'a \<Rightarrow> bool. \<forall>(u, v) \<in> E. \<chi> u \<noteq> \<chi> v)"

definition binary :: "('a \<rightharpoonup> int) \<Rightarrow> bool" where
  "binary c \<longleftrightarrow> (\<forall>k x. c k = Some x \<longrightarrow> x = 0 \<or> x = 1)"

lemma binary_at: "binary c \<Longrightarrow> k \<in> dom c \<Longrightarrow> map_at c k = 0 \<or> map_at c k = 1"
proof -
  assume b: "binary c" and k: "k \<in> dom c"
  from k obtain y where y: "c k = Some y" by auto
  with b have "y = 0 \<or> y = 1" unfolding binary_def by blast
  with y show ?thesis by (simp add: map_at_def)
qed

lemma isBipartiteCheck_neighbors_dom:
  "isBipartiteCheck_neighbors v xs (q, c) = Continue (q', c') \<Longrightarrow> v \<in> dom c \<Longrightarrow>
   dom c' \<subseteq> dom c \<union> set q' \<and> set q \<subseteq> set q' \<and> (binary c \<longrightarrow> binary c')"
proof (induction xs arbitrary: q c)
  case Nil
  then show ?case by simp
next
  case (Cons x xs)
  obtain t w where x: "x = (t, w)" by (cases x)
  show ?case
  proof (cases "c t = None")
    case True
    let ?c2 = "c(t \<mapsto> 1 - map_at c v)"
    from Cons.prems True have step: "isBipartiteCheck_neighbors v xs (q @ [t], ?c2) = Continue (q', c')"
      by (simp add: x map_touch_present)
    have v2: "v \<in> dom ?c2" using Cons.prems(2) by simp
    note IH = Cons.IH [OF step v2]
    have b: "binary c \<Longrightarrow> binary ?c2"
      using binary_at [of c v] Cons.prems(2) by (auto simp: binary_def)
    from IH have i1: "dom c' \<subseteq> dom ?c2 \<union> set q'" and i2: "set (q @ [t]) \<subseteq> set q'"
      and i3: "binary ?c2 \<longrightarrow> binary c'" by blast+
    from i2 have tq: "t \<in> set q'" "set q \<subseteq> set q'" by simp_all
    from i1 have "dom c' \<subseteq> insert t (dom c) \<union> set q'" by simp
    with tq(1) have "dom c' \<subseteq> dom c \<union> set q'" by auto
    with tq(2) i3 b show ?thesis by blast
  next
    case False
    then have td: "t \<in> dom c" by auto
    from Cons.prems False have ne: "map_at c t \<noteq> map_at c v"
      by (auto simp: x split: if_splits)
    from Cons.prems False ne have step: "isBipartiteCheck_neighbors v xs (q, c) = Continue (q', c')"
      by (simp add: x map_touch_present td)
    from Cons.IH [OF step Cons.prems(2)] show ?thesis .
  qed
qed

lemma isBipartiteCheck_neighbors_Return:
  "isBipartiteCheck_neighbors v xs s = Return b \<Longrightarrow> \<not> b"
proof (induction xs arbitrary: s)
  case Nil
  then show ?case by simp
next
  case (Cons x xs)
  obtain q c where s: "s = (q, c)" by (cases s)
  from Cons.prems Cons.IH show ?case by (auto simp: s split: if_splits)
qed

lemma isBipartiteCheck_while_Return:
  "isBipartiteCheck_while g s = Inr (Return b) \<Longrightarrow> \<not> b"
proof (induction g s rule: isBipartiteCheck_while.induct)
  case (1 g q color)
  show ?case
  proof (cases q)
    case Nil
    with "1.prems" show ?thesis by simp
  next
    case (Cons u q')
    from "1.prems" Cons obtain xs where l: "fmlookup (adjList g) u = Some xs"
      by (cases "fmlookup (adjList g) u") simp_all
    show ?thesis
    proof (cases "isBipartiteCheck_neighbors u xs (q', color)")
      case (Return r)
      with "1.prems" Cons l isBipartiteCheck_neighbors_Return [OF Return] show ?thesis by simp
    next
      case (Continue s2)
      with "1.prems" Cons l have "isBipartiteCheck_while g s2 = Inr (Return b)" by simp
      from "1.IH" [OF Cons l Continue this] show ?thesis .
    qed
  qed
qed

definition edges_ok :: "'a graph \<Rightarrow> ('a \<rightharpoonup> int) \<Rightarrow> 'a set \<Rightarrow> bool" where
  "edges_ok g c D \<longleftrightarrow> (\<forall>u \<in> D. \<forall>n. (u, n) \<in> edge_rel g \<longrightarrow> n \<in> dom c \<and> map_at c n \<noteq> map_at c u)"

lemma edges_ok_le: "edges_ok g c D \<Longrightarrow> c \<subseteq>\<^sub>m c' \<Longrightarrow> D \<subseteq> dom c \<Longrightarrow> edges_ok g c' D"
  unfolding edges_ok_def
proof (intro ballI allI impI)
  fix u n
  assume ok: "\<forall>u\<in>D. \<forall>n. (u, n) \<in> edge_rel g \<longrightarrow> n \<in> dom c \<and> map_at c n \<noteq> map_at c u"
    and le: "c \<subseteq>\<^sub>m c'" and D: "D \<subseteq> dom c" and u: "u \<in> D" and e: "(u, n) \<in> edge_rel g"
  from ok u e have n: "n \<in> dom c" "map_at c n \<noteq> map_at c u" by blast+
  from u D have ud: "u \<in> dom c" by blast
  from map_at_le [OF le n(1)] map_at_le [OF le ud] n(2) have "map_at c' n \<noteq> map_at c' u" by simp
  moreover from le n(1) have "n \<in> dom c'" by (auto simp: map_le_def dom_def)
  ultimately show "n \<in> dom c' \<and> map_at c' n \<noteq> map_at c' u" by simp
qed

lemma isBipartiteCheck_while_Continue:
  "isBipartiteCheck_while g s = Inr (Continue c') \<Longrightarrow> set (fst s) \<subseteq> dom (snd s)
   \<Longrightarrow> edges_ok g (snd s) (dom (snd s) - set (fst s)) \<Longrightarrow> binary (snd s)
   \<Longrightarrow> snd s \<subseteq>\<^sub>m c' \<and> edges_ok g c' (dom c') \<and> binary c'"
proof (induction g s rule: isBipartiteCheck_while.induct)
  case (1 g q color)
  show ?case
  proof (cases q)
    case Nil
    with "1.prems" show ?thesis by simp
  next
    case (Cons u q')
    from "1.prems"(2) Cons have u: "u \<in> dom color" and q': "set q' \<subseteq> dom color" by auto
    from "1.prems"(1) Cons obtain xs where l: "fmlookup (adjList g) u = Some xs"
      by (cases "fmlookup (adjList g) u") simp_all
    from "1.prems"(1) Cons l obtain s2 where n: "isBipartiteCheck_neighbors u xs (q', color) = Continue s2"
      and w: "isBipartiteCheck_while g s2 = Inr (Continue c')"
      by (cases "isBipartiteCheck_neighbors u xs (q', color)") simp_all
    obtain q2 c2 where s2: "s2 = (q2, c2)" by (cases s2)
    note N1 = isBipartiteCheck_neighbors_Continue [OF n [unfolded s2] u]
    note N2 = isBipartiteCheck_neighbors_dom [OF n [unfolded s2] u]
    from N1 have le: "color \<subseteq>\<^sub>m c2" by simp
    then have dle: "dom color \<subseteq> dom c2" by (auto simp: map_le_def dom_def)
    from N1 have "set q2 \<subseteq> set q' \<union> dom c2" by blast
    with q' dle have "set q2 \<subseteq> dom c2" by blast
    then have a: "set (fst s2) \<subseteq> dom (snd s2)" by (simp add: s2)
    have b: "binary (snd s2)" using N2 "1.prems"(4) by (simp add: s2)
    have c: "edges_ok g (snd s2) (dom (snd s2) - set (fst s2))"
      unfolding edges_ok_def s2 fst_conv snd_conv
    proof (intro ballI allI impI)
      fix x n assume x: "x \<in> dom c2 - set q2" and e: "(x, n) \<in> edge_rel g"
      from x N2 have xd: "x \<in> dom color" "x \<notin> set q'" by auto
      show "n \<in> dom c2 \<and> map_at c2 n \<noteq> map_at c2 x"
      proof (cases "x = u")
        case True
        from e True have "n \<in> fst ` set xs" using edge_rel_lookup [OF l] by simp
        with N1 True show ?thesis by blast
      next
        case False
        with xd Cons have "x \<in> dom color - set q" by simp
        with "1.prems"(3) have "edges_ok g color {x}" by (auto simp: edges_ok_def)
        from edges_ok_le [OF this le] xd(1) e show ?thesis by (auto simp: edges_ok_def)
      qed
    qed
    from "1.IH" [OF Cons l n w a c b] le show ?thesis
      by (auto simp: s2 intro: map_le_trans)
  qed
qed

lemma isBipartiteCheck_starts_True:
  "isBipartiteCheck_starts g vs c = Inr True \<Longrightarrow> edges_ok g c (dom c) \<Longrightarrow> binary c
   \<Longrightarrow> \<exists>c'. edges_ok g c' (dom c') \<and> binary c' \<and> dom c \<union> set vs \<subseteq> dom c'"
proof (induction vs arbitrary: c)
  case Nil
  then show ?case by auto
next
  case (Cons s vs)
  show ?case
  proof (cases "c s \<noteq> None")
    case True
    with Cons.prems(1) have "isBipartiteCheck_starts g vs c = Inr True" by simp
    from Cons.IH [OF this Cons.prems(2,3)] obtain c' where
      c': "edges_ok g c' (dom c')" "binary c'" "dom c \<union> set vs \<subseteq> dom c'" by blast
    from True have "s \<in> dom c" by auto
    with c'(3) have "dom c \<union> insert s (set vs) \<subseteq> dom c'" by blast
    then have "dom c \<union> set (s # vs) \<subseteq> dom c'" by simp
    with c'(1,2) show ?thesis by blast
  next
    case False
    with Cons.prems(1) obtain c1 where w: "isBipartiteCheck_while g ([s], c(s \<mapsto> 0)) = Inr (Continue c1)"
      and r: "isBipartiteCheck_starts g vs c1 = Inr True"
      by (auto simp del: isBipartiteCheck_while.simps split: sum.splits flow.splits
          dest: isBipartiteCheck_while_Return)
    have le: "c \<subseteq>\<^sub>m c(s \<mapsto> 0)" using False by (auto simp: map_le_def)
    have "edges_ok g (c(s \<mapsto> 0)) (dom c)" by (rule edges_ok_le [OF Cons.prems(2) le]) simp
    moreover have "dom (c(s \<mapsto> 0)) - {s} = dom c" using False by auto
    ultimately have a: "edges_ok g (snd ([s], c(s \<mapsto> 0))) (dom (snd ([s], c(s \<mapsto> 0))) - set (fst ([s], c(s \<mapsto> 0))))"
      by simp
    have b: "binary (snd ([s], c(s \<mapsto> 0)))" using Cons.prems(3) by (auto simp: binary_def)
    from isBipartiteCheck_while_Continue [OF w _ a b]
    have c1: "c(s \<mapsto> 0) \<subseteq>\<^sub>m c1" "edges_ok g c1 (dom c1)" "binary c1" by simp_all
    from c1(1) have d: "insert s (dom c) \<subseteq> dom c1" by (auto simp: map_le_def dom_def)
    from Cons.IH [OF r c1(2,3)] obtain c' where
      c': "edges_ok g c' (dom c')" "binary c'" "dom c1 \<union> set vs \<subseteq> dom c'" by blast
    from c'(3) d have "dom c \<union> insert s (set vs) \<subseteq> dom c'" by blast
    then have "dom c \<union> set (s # vs) \<subseteq> dom c'" by simp
    with c'(1,2) show ?thesis by blast
  qed
qed

lemma edge_source_vertex:
  assumes "wf_graph g" and "(u, n) \<in> edge_rel g"
  shows "u |\<in>| vertices g"
proof -
  from assms(2) have "neighbors (adjList g) u \<noteq> []" by (auto simp: edge_rel_def)
  then have "u |\<in>| fmdom (adjList g)" by (auto simp: neighbors_def split: option.splits intro: fmdomI)
  with assms(1) show ?thesis by (simp add: wf_graph_def graph_inv_def)
qed

lemma isBipartiteCheck_True:
  assumes wf: "wf_graph g" and t: "isBipartiteCheck g = Inr True"
  shows "two_colorable (edge_rel g)"
proof (cases "vertices g = {||}")
  case True
  with edge_source_vertex [OF wf] have "edge_rel g = {}" by auto
  then show ?thesis by (simp add: two_colorable_def)
next
  case False
  with t have "isBipartiteCheck_starts g (sorted_list_of_fset (vertices g)) Map.empty = Inr True"
    by (simp add: isBipartiteCheck_def)
  from isBipartiteCheck_starts_True [OF this]
  obtain c where c: "edges_ok g c (dom c)" "binary c" "fset (vertices g) \<subseteq> dom c"
    by (auto simp: edges_ok_def binary_def)
  show ?thesis
    unfolding two_colorable_def
  proof (intro exI [of _ "\<lambda>u. map_at c u = 0"], clarify)
    fix u n assume e: "(u, n) \<in> edge_rel g" and eq: "(map_at c u = 0) = (map_at c n = 0)"
    from edge_source_vertex [OF wf e] c(3) have u: "u \<in> dom c" by auto
    with c(1) e have n: "n \<in> dom c" "map_at c n \<noteq> map_at c u" by (auto simp: edges_ok_def)
    from binary_at [OF c(2) u] binary_at [OF c(2) n(1)] n(2) eq show False by auto
  qed
qed

definition consistent :: "('a \<Rightarrow> bool) \<Rightarrow> ('a \<rightharpoonup> int) \<Rightarrow> 'a set \<Rightarrow> bool" where
  "consistent \<chi> c Old \<longleftrightarrow>
     (\<forall>a \<in> dom c - Old. \<forall>b \<in> dom c - Old. (map_at c a = map_at c b) = (\<chi> a = \<chi> b))"

lemma isBipartiteCheck_neighbors_proper:
  "v \<in> dom c \<Longrightarrow> v \<notin> Old \<Longrightarrow> binary c \<Longrightarrow> consistent \<chi> c Old
   \<Longrightarrow> \<forall>t \<in> fst ` set xs. \<chi> t \<noteq> \<chi> v \<and> t \<notin> Old
   \<Longrightarrow> \<exists>q' c'. isBipartiteCheck_neighbors v xs (q, c) = Continue (q', c') \<and> consistent \<chi> c' Old"
proof (induction xs arbitrary: q c)
  case Nil
  then show ?case by simp
next
  case (Cons x xs)
  obtain t w where x: "x = (t, w)" by (cases x)
  from Cons.prems(5) have t: "\<chi> t \<noteq> \<chi> v" "t \<notin> Old" and rest: "\<forall>t \<in> fst ` set xs. \<chi> t \<noteq> \<chi> v \<and> t \<notin> Old"
    by (auto simp: x)
  show ?case
  proof (cases "c t = None")
    case True
    let ?c2 = "c(t \<mapsto> 1 - map_at c v)"
    have tv: "t \<noteq> v" using True Cons.prems(1) by auto
    have b2: "binary ?c2" using binary_at [OF Cons.prems(3,1)] Cons.prems(3) by (auto simp: binary_def)
    have at2: "map_at ?c2 k = (if k = t then 1 - map_at c v else map_at c k)" for k
      by (simp add: map_at_def)
    have c2: "consistent \<chi> ?c2 Old"
      unfolding consistent_def
    proof (intro ballI)
      fix a b assume a: "a \<in> dom ?c2 - Old" and b: "b \<in> dom ?c2 - Old"
      have key: "(1 - map_at c v = map_at c k) = (\<chi> t = \<chi> k)" if k: "k \<in> dom c - Old" for k
      proof -
        from Cons.prems(1,2) have "v \<in> dom c - Old" by simp
        with Cons.prems(4) k have "(map_at c v = map_at c k) = (\<chi> v = \<chi> k)"
          unfolding consistent_def by blast
        moreover from k have "k \<in> dom c" by simp
        from binary_at [OF Cons.prems(3,1)] binary_at [OF Cons.prems(3) this]
        have "(1 - map_at c v = map_at c k) = (map_at c v \<noteq> map_at c k)" by presburger
        ultimately show ?thesis using t(1) by auto
      qed
      show "(map_at ?c2 a = map_at ?c2 b) = (\<chi> a = \<chi> b)"
      proof (cases "a = t"; cases "b = t")
        assume "a = t" "b = t"
        then show ?thesis by simp
      next
        assume e: "a = t" "b \<noteq> t"
        with b have "b \<in> dom c - Old" by auto
        from key [OF this] e show ?thesis by (simp add: at2)
      next
        assume e: "a \<noteq> t" "b = t"
        with a have "a \<in> dom c - Old" by auto
        from key [OF this] e show ?thesis by (auto simp: at2)
      next
        assume e: "a \<noteq> t" "b \<noteq> t"
        with a b have "a \<in> dom c - Old" "b \<in> dom c - Old" by auto
        with Cons.prems(4) e show ?thesis unfolding consistent_def by (simp add: at2)
      qed
    qed
    have "v \<in> dom ?c2" using Cons.prems(1) by simp
    from Cons.IH [OF this Cons.prems(2) b2 c2 rest, of "q @ [t]"] obtain q' c' where
      r: "isBipartiteCheck_neighbors v xs (q @ [t], ?c2) = Continue (q', c')" "consistent \<chi> c' Old"
      by blast
    have "isBipartiteCheck_neighbors v (x # xs) (q, c) = isBipartiteCheck_neighbors v xs (q @ [t], ?c2)"
      using True Cons.prems(1) by (simp add: x map_touch_present)
    with r show ?thesis by simp
  next
    case False
    then have td: "t \<in> dom c" by auto
    with t(2) Cons.prems(1,2,4) have "(map_at c t = map_at c v) = (\<chi> t = \<chi> v)"
      unfolding consistent_def by blast
    with t(1) have ne: "map_at c t \<noteq> map_at c v" by simp
    from Cons.IH [OF Cons.prems(1,2,3,4) rest, of q] obtain q' c' where
      r: "isBipartiteCheck_neighbors v xs (q, c) = Continue (q', c')" "consistent \<chi> c' Old"
      by blast
    have "isBipartiteCheck_neighbors v (x # xs) (q, c) = isBipartiteCheck_neighbors v xs (q, c)"
      using ne td Cons.prems(1) by (simp add: x map_touch_present False)
    with r show ?thesis by simp
  qed
qed

lemma isBipartiteCheck_while_proper:
  assumes proper: "\<forall>(u, v) \<in> edge_rel g. \<chi> u \<noteq> \<chi> v" and sym: "symmetric_adjacency g"
    and closed: "\<forall>u \<in> Old. \<forall>n. (u, n) \<in> edge_rel g \<longrightarrow> n \<in> Old"
  shows "set (fst s) \<subseteq> dom (snd s) - Old \<Longrightarrow> binary (snd s) \<Longrightarrow> consistent \<chi> (snd s) Old
    \<Longrightarrow> isBipartiteCheck_while g s \<noteq> Inr (Return b)"
proof -
  have symE: "(n, u) \<in> edge_rel g" if "(u, n) \<in> edge_rel g" for u n
  proof -
    from that obtain w where "(n, w) \<in> set (neighbors (adjList g) u)" by (auto simp: edge_rel_def)
    with sym have "(u, w) \<in> set (neighbors (adjList g) n)" unfolding symmetric_adjacency_def by blast
    then show ?thesis by (force simp: edge_rel_def)
  qed
  have "g' = g \<longrightarrow> set (fst s) \<subseteq> dom (snd s) - Old \<longrightarrow> binary (snd s) \<longrightarrow> consistent \<chi> (snd s) Old
        \<longrightarrow> isBipartiteCheck_while g' s \<noteq> Inr (Return b)" for g'
  proof (induction g' s rule: isBipartiteCheck_while.induct)
    case (1 g' q color)
    show ?case
    proof (intro impI)
      assume e: "g' = g" and inq: "set (fst (q, color)) \<subseteq> dom (snd (q, color)) - Old"
        and bin: "binary (snd (q, color))" and con: "consistent \<chi> (snd (q, color)) Old"
      show "isBipartiteCheck_while g' (q, color) \<noteq> Inr (Return b)"
      proof (cases q)
        case Nil
        then show ?thesis by simp
      next
        case (Cons u q')
        from inq Cons have u: "u \<in> dom color" "u \<notin> Old" and q': "set q' \<subseteq> dom color - Old" by auto
        show ?thesis
        proof (cases "fmlookup (adjList g) u")
          case None
          with Cons e show ?thesis by simp
        next
          case (Some xs)
          have tg: "\<forall>t \<in> fst ` set xs. \<chi> t \<noteq> \<chi> u \<and> t \<notin> Old"
          proof
            fix t assume "t \<in> fst ` set xs"
            then have ed: "(u, t) \<in> edge_rel g" using edge_rel_lookup [OF Some] by simp
            with proper have "\<chi> u \<noteq> \<chi> t" by blast
            moreover have "t \<notin> Old"
            proof
              assume "t \<in> Old"
              with closed symE [OF ed] have "u \<in> Old" by blast
              with u(2) show False by simp
            qed
            ultimately show "\<chi> t \<noteq> \<chi> u \<and> t \<notin> Old" by auto
          qed
          from isBipartiteCheck_neighbors_proper [where q = q', OF u(1,2) _ _ tg] bin con
          obtain q2 c2 where n: "isBipartiteCheck_neighbors u xs (q', color) = Continue (q2, c2)"
            and con2: "consistent \<chi> c2 Old" by auto
          note N1 = isBipartiteCheck_neighbors_Continue [OF n u(1)]
          note N2 = isBipartiteCheck_neighbors_dom [OF n u(1)]
          from N1 have s1: "set q2 \<subseteq> set q' \<union> fst ` set xs"
            and s2: "set q2 \<subseteq> set q' \<union> dom c2" and le: "color \<subseteq>\<^sub>m c2" by simp_all
          from le have dle: "dom color \<subseteq> dom c2" by (auto simp: map_le_def dom_def)
          from tg have "fst ` set xs \<inter> Old = {}" by blast
          with s1 q' have "set q2 \<inter> Old = {}" by blast
          moreover from s2 q' dle have "set q2 \<subseteq> dom c2" by blast
          ultimately have a: "set q2 \<subseteq> dom c2 - Old" by blast
          from N2 bin have b2: "binary c2" by simp
          from "1.IH" [OF Cons Some [unfolded e [symmetric]] n] e a b2 con2
          have "isBipartiteCheck_while g (q2, c2) \<noteq> Inr (Return b)" by simp
          with Cons Some n e show ?thesis by simp
        qed
      qed
    qed
  qed
  then show "set (fst s) \<subseteq> dom (snd s) - Old \<Longrightarrow> binary (snd s) \<Longrightarrow> consistent \<chi> (snd s) Old
    \<Longrightarrow> isBipartiteCheck_while g s \<noteq> Inr (Return b)" by simp
qed

lemma isBipartiteCheck_starts_proper:
  assumes proper: "\<forall>(u, v) \<in> edge_rel g. (\<chi> :: 'a \<Rightarrow> bool) u \<noteq> \<chi> v" and sym: "symmetric_adjacency g"
  shows "edges_ok g c (dom c) \<Longrightarrow> binary c \<Longrightarrow> isBipartiteCheck_starts g vs c \<noteq> Inr False"
proof (induction vs arbitrary: c)
  case Nil
  then show ?case by simp
next
  case (Cons s vs)
  show ?case
  proof (cases "c s \<noteq> None")
    case True
    with Cons.IH [OF Cons.prems] show ?thesis by simp
  next
    case False
    have closed: "\<forall>u \<in> dom c. \<forall>n. (u, n) \<in> edge_rel g \<longrightarrow> n \<in> dom c"
      using Cons.prems(1) by (auto simp: edges_ok_def)
    have b: "binary (snd ([s], c(s \<mapsto> 0)))" using Cons.prems(2) by (auto simp: binary_def)
    have "dom (c(s \<mapsto> 0)) - dom c = {s}" using False by auto
    then have con: "consistent \<chi> (snd ([s], c(s \<mapsto> 0))) (dom c)"
      by (simp add: consistent_def)
    have q: "set (fst ([s], c(s \<mapsto> 0))) \<subseteq> dom (snd ([s], c(s \<mapsto> 0))) - dom c" using False by auto
    note nr = isBipartiteCheck_while_proper [OF proper sym closed q b con]
    show ?thesis
    proof (cases "isBipartiteCheck_while g ([s], c(s \<mapsto> 0))")
      case (Inl err)
      with False show ?thesis by (simp del: isBipartiteCheck_while.simps)
    next
      case (Inr fl)
      show ?thesis
      proof (cases fl)
        case (Return rb)
        with Inr nr [of rb] show ?thesis by simp
      next
        case (Continue c1)
        have le: "c \<subseteq>\<^sub>m c(s \<mapsto> 0)" using False by (auto simp: map_le_def)
        have "edges_ok g (c(s \<mapsto> 0)) (dom c)" by (rule edges_ok_le [OF Cons.prems(1) le]) simp
        moreover have "dom (c(s \<mapsto> 0)) - {s} = dom c" using False by auto
        ultimately have a: "edges_ok g (snd ([s], c(s \<mapsto> 0))) (dom (snd ([s], c(s \<mapsto> 0))) - set (fst ([s], c(s \<mapsto> 0))))"
          by simp
        from isBipartiteCheck_while_Continue [OF Inr [unfolded Continue] _ a b]
        have c1: "edges_ok g c1 (dom c1)" "binary c1" by simp_all
        from Cons.IH [OF c1] Inr Continue False show ?thesis
          by (simp del: isBipartiteCheck_while.simps)
      qed
    qed
  qed
qed

text \<open>
  On a well-formed graph with a symmetric adjacency structure \<open>isBipartiteCheck\<close> returns,
  and returns \<open>true\<close> exactly when the stored edges admit a 2-colouring.
\<close>

lemma isBipartiteCheck_decides:
  assumes wf: "wf_graph g" and sym: "symmetric_adjacency g"
  shows "isBipartiteCheck g = Inr (two_colorable (edge_rel g))"
proof -
  from isBipartiteCheck_no_throw [OF wf] obtain b where b: "isBipartiteCheck g = Inr b"
    by (cases "isBipartiteCheck g") simp_all
  show ?thesis
  proof (cases b)
    case True
    with b isBipartiteCheck_True [OF wf] show ?thesis by simp
  next
    case False
    have "\<not> two_colorable (edge_rel g)"
    proof
      assume "two_colorable (edge_rel g)"
      then obtain \<chi> :: "'a \<Rightarrow> bool" where proper: "\<forall>(u, v) \<in> edge_rel g. \<chi> u \<noteq> \<chi> v"
        by (auto simp: two_colorable_def)
      have "isBipartiteCheck_starts g (sorted_list_of_fset (vertices g)) Map.empty \<noteq> Inr False"
        by (rule isBipartiteCheck_starts_proper [OF proper sym]) (simp_all add: edges_ok_def binary_def)
      with b False show False by (auto simp: isBipartiteCheck_def split: if_splits)
    qed
    with b False show ?thesis by simp
  qed
qed

subsection \<open>How the mutators change the edge relation\<close>

lemma edge_rel_addVertex: "graph_inv g \<Longrightarrow> edge_rel (addVertex g v) = edge_rel g"
  by (simp add: edge_rel_def neighbors_addVertex)

lemma edge_rel_addEdge:
  "graph_inv g \<Longrightarrow> edge_rel (addEdge g s d w)
     = edge_rel g \<union> {(s, d)} \<union> (if isDirected g then {} else {(d, s)})"
  by (auto simp: edge_rel_def neighbors_addEdge split: if_splits)

lemma edge_rel_mono:
  assumes "\<And>k. set (neighbors (adjList g') k) \<subseteq> set (neighbors (adjList g) k)"
  shows "edge_rel g' \<subseteq> edge_rel g"
  unfolding edge_rel_def using assms by blast

lemma edge_rel_deleteVertex: "edge_rel (snd (deleteVertex g v)) \<subseteq> edge_rel g"
  by (rule edge_rel_mono) (simp add: neighbors_deleteVertex)

lemma edge_rel_deleteEdge: "edge_rel (snd (deleteEdge g s d)) \<subseteq> edge_rel g"
  by (rule edge_rel_mono) (simp add: neighbors_deleteEdge)

lemma two_colorable_subset: "E \<subseteq> F \<Longrightarrow> two_colorable F \<Longrightarrow> two_colorable E"
proof -
  assume s: "E \<subseteq> F" and t: "two_colorable F"
  from t obtain \<chi> :: "'a \<Rightarrow> bool" where c: "\<forall>(u, v) \<in> F. \<chi> u \<noteq> \<chi> v"
    unfolding two_colorable_def by (rule exE)
  have "\<forall>(u, v) \<in> E. \<chi> u \<noteq> \<chi> v"
  proof
    fix x assume "x \<in> E"
    with s have "x \<in> F" by (rule subsetD)
    with c show "case x of (u, v) \<Rightarrow> \<chi> u \<noteq> \<chi> v" by (rule bspec)
  qed
  then show ?thesis by (auto simp: two_colorable_def)
qed

subsection \<open>The outcome of the two guarded addEdge functions\<close>

lemma DirectedAcyclicGraph_addEdge_decides:
  assumes wf: "wf_graph g" and dir: "isDirected g" and pre: "acyclic (edge_rel g)"
  shows "DirectedAcyclicGraph_addEdge g src dest w =
          (if acyclic (edge_rel (addEdge g src dest w)) then (None, addEdge g src dest w)
           else (Some logic_error, addVertex (addVertex g src) dest))"
proof -
  let ?g1 = "addEdge g src dest w"
  let ?g2 = "addVertex (addVertex g src) dest"
  have gi: "graph_inv g" using wf by (simp add: wf_graph_def)
  have g1: "?g1 = ?g2\<lparr>adjList := push_back (adjList ?g2) src (dest, w)\<rparr>"
    using dir by (simp add: addEdge_def Let_def isDirected_addVertex)
  have wf1: "wf_graph ?g1" using wf by (rule wf_graph_addEdge)
  note scan = DirectedAcyclicGraph_scan_decides [OF wf1]
  have accept: "DirectedAcyclicGraph_addEdge g src dest w = (None, ?g1)" if "acyclic (edge_rel ?g1)"
    using scan that by (simp add: DirectedAcyclicGraph_addEdge_def Let_def)
  have reject: "DirectedAcyclicGraph_addEdge g src dest w = (Some logic_error, ?g2)"
    if cyc: "\<not> acyclic (edge_rel ?g1)"
  proof -
    have fresh: "dest \<notin> fst ` set (neighbors (adjList g) src)"
    proof
      assume "dest \<in> fst ` set (neighbors (adjList g) src)"
      then have "(src, dest) \<in> edge_rel g" by (simp add: edge_rel_def)
      then have e: "edge_rel ?g1 = edge_rel g"
        using dir by (simp add: edge_rel_addEdge [OF gi] insert_absorb)
      from pre have "acyclic (edge_rel ?g1)" by (subst e)
      with cyc show False by contradiction
    qed
    have l: "fmlookup (adjList ?g2) src = Some (neighbors (adjList g) src)"
      by (simp add: addVertex_twice_lookup [OF gi])
    have "erase_target (adjList ?g1) src dest = adjList ?g2"
      unfolding g1 using erase_pushed [OF l fresh] by simp
    then have "?g1\<lparr>adjList := erase_target (adjList ?g1) src dest\<rparr> = ?g2"
      unfolding g1 by simp
    then show ?thesis using scan cyc by (simp add: DirectedAcyclicGraph_addEdge_def Let_def)
  qed
  show ?thesis
  proof (cases "acyclic (edge_rel ?g1)")
    case True
    from accept [OF True] True show ?thesis by simp
  next
    case False
    from reject [OF False] False show ?thesis by simp
  qed
qed

lemma BipartiteGraph_addEdge_decides:
  assumes wf: "wf_graph g" and und: "\<not> isDirected g" and sym: "symmetric_adjacency g"
    and pre: "two_colorable (edge_rel g)"
  shows "BipartiteGraph_addEdge g src dest w =
          (if two_colorable (edge_rel (addEdge g src dest w)) then (None, addEdge g src dest w)
           else (Some logic_error, addVertex (addVertex g src) dest))"
proof -
  let ?g1 = "addEdge g src dest w"
  let ?g2 = "addVertex (addVertex g src) dest"
  have gi: "graph_inv g" using wf by (simp add: wf_graph_def)
  have g1: "?g1 = ?g2\<lparr>adjList := push_back (push_back (adjList ?g2) src (dest, w)) dest (src, w)\<rparr>"
    using und by (simp add: addEdge_def Let_def isDirected_addVertex)
  have wf1: "wf_graph ?g1" using wf by (rule wf_graph_addEdge)
  have "undirected_inv g" using gi und sym by (simp add: undirected_inv_def)
  then have "undirected_inv ?g1" by (rule undirected_inv_addEdge)
  then have sym1: "symmetric_adjacency ?g1" by (simp add: undirected_inv_def)
  note chk = isBipartiteCheck_decides [OF wf1 sym1]
  show ?thesis
  proof (cases "two_colorable (edge_rel ?g1)")
    case True
    with chk show ?thesis by (simp add: BipartiteGraph_addEdge_def Let_def)
  next
    case False
    have symE: "(b, a) \<in> edge_rel g" if "(a, b) \<in> edge_rel g" for a b
    proof -
      from that obtain x where "(b, x) \<in> set (neighbors (adjList g) a)" by (auto simp: edge_rel_def)
      with sym have "(a, x) \<in> set (neighbors (adjList g) b)" unfolding symmetric_adjacency_def by blast
      then show ?thesis by (force simp: edge_rel_def)
    qed
    have new: "(src, dest) \<notin> edge_rel g"
    proof
      assume e: "(src, dest) \<in> edge_rel g"
      with symE have "(dest, src) \<in> edge_rel g" by blast
      with e have "edge_rel ?g1 = edge_rel g" using und by (auto simp: edge_rel_addEdge [OF gi])
      with pre False show False by simp
    qed
    then have fresh: "dest \<notin> fst ` set (neighbors (adjList g) src)" by (simp add: edge_rel_def)
    from new symE have "(dest, src) \<notin> edge_rel g" by blast
    then have fresh': "src \<notin> fst ` set (neighbors (adjList g) dest)" by (simp add: edge_rel_def)
    have l: "fmlookup (adjList ?g2) src = Some (neighbors (adjList g) src)"
        "fmlookup (adjList ?g2) dest = Some (neighbors (adjList g) dest)"
      by (simp_all add: addVertex_twice_lookup [OF gi])
    have "erase_target (erase_target (adjList ?g1) src dest) dest src = adjList ?g2"
      unfolding g1 using erase_pushed_both [OF l fresh fresh'] by simp
    then have "?g1\<lparr>adjList := erase_target (erase_target (adjList ?g1) src dest) dest src\<rparr> = ?g2"
      unfolding g1 by simp
    with chk False show ?thesis by (simp add: BipartiteGraph_addEdge_def Let_def)
  qed
qed

subsection \<open>What every DirectedAcyclicGraph and BipartiteGraph object satisfies\<close>

text \<open>
  \<open>dag_inv\<close> and \<open>bipartite_inv\<close> hold after the constructor and are kept by every public
  mutating call on an object of the class, whether the call returns or throws.
\<close>

definition dag_inv :: "'a graph \<Rightarrow> bool" where
  "dag_inv g \<longleftrightarrow> wf_graph g \<and> isDirected g \<and> acyclic (edge_rel g)"

definition bipartite_inv :: "'a graph \<Rightarrow> bool" where
  "bipartite_inv g \<longleftrightarrow> wf_graph g \<and> undirected_inv g \<and> two_colorable (edge_rel g)"

lemma dag_inv_addVertex: "dag_inv g \<Longrightarrow> dag_inv (addVertex g v)"
proof -
  assume g: "dag_inv g"
  then have "graph_inv g" by (simp add: dag_inv_def wf_graph_def)
  with g show ?thesis
    by (simp add: dag_inv_def wf_graph_addVertex isDirected_addVertex edge_rel_addVertex)
qed

lemma dag_inv_addEdge: "dag_inv g \<Longrightarrow> dag_inv (snd (DirectedAcyclicGraph_addEdge g s d w))"
proof -
  assume g: "dag_inv g"
  then have a: "wf_graph g" "isDirected g" "acyclic (edge_rel g)" by (simp_all add: dag_inv_def)
  show ?thesis
  proof (cases "acyclic (edge_rel (addEdge g s d w))")
    case True
    with a show ?thesis
      by (simp add: DirectedAcyclicGraph_addEdge_decides dag_inv_def wf_graph_addEdge isDirected_addEdge)
  next
    case False
    with a dag_inv_addVertex [OF dag_inv_addVertex [OF g]] show ?thesis
      by (simp add: DirectedAcyclicGraph_addEdge_decides)
  qed
qed

lemma dag_inv_call: "dag_inv g \<Longrightarrow> dag_inv (call New_DirectedAcyclicGraph c g)"
proof (cases c)
  case (Call_deleteVertex v)
  assume "dag_inv g"
  with acyclic_subset [OF _ edge_rel_deleteVertex, of g v] show ?thesis
    by (simp add: Call_deleteVertex dag_inv_def wf_graph_deleteVertex isDirected_deleteVertex)
next
  case (Call_deleteEdge s d)
  assume "dag_inv g"
  with acyclic_subset [OF _ edge_rel_deleteEdge, of g s d] show ?thesis
    by (simp add: Call_deleteEdge dag_inv_def wf_graph_deleteEdge isDirected_deleteEdge)
next
  case (Call_join other)
  assume "dag_inv g"
  with join_preserves [of dag_inv DirectedAcyclicGraph_addEdge g other] show ?thesis
    by (simp add: Call_join dag_inv_addVertex dag_inv_addEdge)
qed (simp_all add: dag_inv_addVertex dag_inv_addEdge)

lemma dag_inv_reachable:
  "dag_inv (fold (call New_DirectedAcyclicGraph) cs (construct New_DirectedAcyclicGraph))"
proof -
  have "edge_rel (Graph True False :: 'a graph) = {}"
    by (simp add: edge_rel_def Graph_def neighbors_def)
  then have c: "dag_inv (construct New_DirectedAcyclicGraph :: 'a graph)"
    by (simp add: dag_inv_def DirectedAcyclicGraph_def wf_graph_Graph acyclic_def) (simp add: Graph_def)
  have "dag_inv g \<Longrightarrow> dag_inv (fold (call New_DirectedAcyclicGraph) cs g)" for g :: "'a graph"
    by (induction cs arbitrary: g) (simp_all add: dag_inv_call)
  from this [OF c] show ?thesis .
qed

lemma bipartite_inv_addVertex: "bipartite_inv g \<Longrightarrow> bipartite_inv (addVertex g v)"
proof -
  assume g: "bipartite_inv g"
  then have "graph_inv g" by (simp add: bipartite_inv_def wf_graph_def)
  with g show ?thesis
    by (simp add: bipartite_inv_def wf_graph_addVertex undirected_inv_addVertex edge_rel_addVertex)
qed

lemma bipartite_inv_addEdge: "bipartite_inv g \<Longrightarrow> bipartite_inv (snd (BipartiteGraph_addEdge g s d w))"
proof -
  assume g: "bipartite_inv g"
  then have a: "wf_graph g" "\<not> isDirected g" "symmetric_adjacency g" "two_colorable (edge_rel g)"
    and u: "undirected_inv g"
    by (simp_all add: bipartite_inv_def undirected_inv_def)
  note d = BipartiteGraph_addEdge_decides [OF a]
  show ?thesis
  proof (cases "two_colorable (edge_rel (addEdge g s d w))")
    case True
    with a u show ?thesis
      by (simp add: d bipartite_inv_def wf_graph_addEdge undirected_inv_addEdge)
  next
    case False
    with bipartite_inv_addVertex [OF bipartite_inv_addVertex [OF g]] show ?thesis
      by (simp add: d)
  qed
qed

lemma bipartite_inv_call: "bipartite_inv g \<Longrightarrow> bipartite_inv (call New_BipartiteGraph c g)"
proof (cases c)
  case (Call_deleteVertex v)
  assume "bipartite_inv g"
  with two_colorable_subset [OF edge_rel_deleteVertex, of g v] show ?thesis
    by (simp add: Call_deleteVertex bipartite_inv_def wf_graph_deleteVertex undirected_inv_deleteVertex)
next
  case (Call_deleteEdge s d)
  assume "bipartite_inv g"
  with two_colorable_subset [OF edge_rel_deleteEdge, of g s d] show ?thesis
    by (simp add: Call_deleteEdge bipartite_inv_def wf_graph_deleteEdge undirected_inv_deleteEdge)
next
  case (Call_join other)
  assume "bipartite_inv g"
  with join_preserves [of bipartite_inv BipartiteGraph_addEdge g other] show ?thesis
    by (simp add: Call_join bipartite_inv_addVertex bipartite_inv_addEdge)
qed (simp_all add: bipartite_inv_addVertex bipartite_inv_addEdge)

lemma bipartite_inv_reachable:
  "bipartite_inv (fold (call New_BipartiteGraph) cs (construct New_BipartiteGraph))"
proof -
  have "edge_rel (Graph False False :: 'a graph) = {}"
    by (simp add: edge_rel_def Graph_def neighbors_def)
  moreover have "undirected_inv (construct New_BipartiteGraph :: 'a graph)"
    by (rule undirected_inv_construct) (simp add: BipartiteGraph_def Graph_def)
  ultimately have c: "bipartite_inv (construct New_BipartiteGraph :: 'a graph)"
    by (simp add: bipartite_inv_def BipartiteGraph_def wf_graph_Graph two_colorable_def)
  have "bipartite_inv g \<Longrightarrow> bipartite_inv (fold (call New_BipartiteGraph) cs g)" for g :: "'a graph"
    by (induction cs arbitrary: g) (simp_all add: bipartite_inv_call)
  from this [OF c] show ?thesis .
qed

text \<open>
  C1. When \<open>DirectedAcyclicGraph::addEdge\<close> or \<open>BipartiteGraph::addEdge\<close> rejects an edge it is
  to leave the graph in its exact state before the call, for every prior state and every
  \<open>src\<close> and \<open>dest\<close>. On an empty graph of either class the self-loop \<open>addEdge(v, v)\<close> is
  rejected with \<open>logic_error\<close>, and the graph after the call is not the graph before it.
\<close>

theorem C1_counterexample:
  "fst (DirectedAcyclicGraph_addEdge DirectedAcyclicGraph (1::int) 1 1) = Some logic_error
   \<and> snd (DirectedAcyclicGraph_addEdge DirectedAcyclicGraph (1::int) 1 1) \<noteq> DirectedAcyclicGraph
   \<and> vertices (snd (DirectedAcyclicGraph_addEdge DirectedAcyclicGraph (1::int) 1 1)) = {|1|}
   \<and> vertices (DirectedAcyclicGraph :: int graph) = {||}
   \<and> fst (BipartiteGraph_addEdge BipartiteGraph (7::int) 7 1) = Some logic_error
   \<and> snd (BipartiteGraph_addEdge BipartiteGraph (7::int) 7 1) \<noteq> BipartiteGraph
   \<and> getNumVertices (snd (BipartiteGraph_addEdge BipartiteGraph (7::int) 7 1)) = 1
   \<and> getNumVertices (BipartiteGraph :: int graph) = 0"
  by code_simp

text \<open>
  C1, amended. Let \<open>g\<close> be any state of a \<open>DirectedAcyclicGraph\<close> object: the constructor
  followed by any sequence of public mutating calls, rejected ones included. Its stored edges
  have no directed cycle. If they still have none with \<open>src \<rightarrow> dest\<close> added,
  \<open>addEdge(src, dest, weight)\<close> returns and the graph is the one \<open>Graph::addEdge\<close> produces.
  If \<open>src \<rightarrow> dest\<close> closes a directed cycle, the call raises \<open>logic_error\<close>; before raising
  it removes the inserted edge, so that every adjacency list holds the entries it held before
  the call, and when \<open>src\<close> and \<open>dest\<close> were vertices already the graph is exactly the graph
  before the call. The same holds of a \<open>BipartiteGraph\<close> object, with "the stored edges
  admit a 2-colouring" in place of "have no directed cycle" and the edge added in both
  directions.
\<close>

theorem C1_rollback:
  fixes cs :: "'a::linorder mutation list"
  shows
   "(let g = fold (call New_DirectedAcyclicGraph) cs (construct New_DirectedAcyclicGraph);
         r = DirectedAcyclicGraph_addEdge g src dest w
     in acyclic (edge_rel g)
        \<and> (if acyclic (insert (src, dest) (edge_rel g))
           then r = (None, addEdge g src dest w)
           else fst r = Some logic_error
                \<and> (\<forall>k. neighbors (adjList (snd r)) k = neighbors (adjList g) k)
                \<and> (src |\<in>| vertices g \<and> dest |\<in>| vertices g \<longrightarrow> snd r = g)))
  \<and> (let g = fold (call New_BipartiteGraph) cs (construct New_BipartiteGraph);
         r = BipartiteGraph_addEdge g src dest w
     in two_colorable (edge_rel g)
        \<and> (if two_colorable (insert (src, dest) (insert (dest, src) (edge_rel g)))
           then r = (None, addEdge g src dest w)
           else fst r = Some logic_error
                \<and> (\<forall>k. neighbors (adjList (snd r)) k = neighbors (adjList g) k)
                \<and> (src |\<in>| vertices g \<and> dest |\<in>| vertices g \<longrightarrow> snd r = g)))"
proof -
  define d :: "'a graph" where
    "d = fold (call New_DirectedAcyclicGraph) cs (construct New_DirectedAcyclicGraph)"
  define b :: "'a graph" where
    "b = fold (call New_BipartiteGraph) cs (construct New_BipartiteGraph)"
  have same: "addVertex (addVertex g src) dest = g"
    if "src |\<in>| vertices g \<and> dest |\<in>| vertices g" for g :: "'a graph"
    using that by (simp add: addVertex_def)
  have nbrs: "neighbors (adjList (addVertex (addVertex g src) dest)) k = neighbors (adjList g) k"
    if "graph_inv g" for g :: "'a graph" and k
    using that by (simp add: neighbors_addVertex graph_inv_addVertex)
  have "dag_inv d" unfolding d_def by (rule dag_inv_reachable)
  then have dw: "wf_graph d" and dd: "isDirected d" and da: "acyclic (edge_rel d)"
    by (simp_all add: dag_inv_def)
  from dw have dg: "graph_inv d" by (simp add: wf_graph_def)
  have de: "edge_rel (addEdge d src dest w) = insert (src, dest) (edge_rel d)"
    using dd by (simp add: edge_rel_addEdge [OF dg])
  note dr = DirectedAcyclicGraph_addEdge_decides [OF dw dd da, of src dest w, unfolded de]
  have D: "acyclic (edge_rel d)
        \<and> (if acyclic (insert (src, dest) (edge_rel d))
           then DirectedAcyclicGraph_addEdge d src dest w = (None, addEdge d src dest w)
           else fst (DirectedAcyclicGraph_addEdge d src dest w) = Some logic_error
                \<and> (\<forall>k. neighbors (adjList (snd (DirectedAcyclicGraph_addEdge d src dest w))) k
                        = neighbors (adjList d) k)
                \<and> (src |\<in>| vertices d \<and> dest |\<in>| vertices d
                     \<longrightarrow> snd (DirectedAcyclicGraph_addEdge d src dest w) = d))"
  proof (cases "acyclic (insert (src, dest) (edge_rel d))")
    case True
    with dr da show ?thesis by simp
  next
    case False
    with dr have "DirectedAcyclicGraph_addEdge d src dest w
        = (Some logic_error, addVertex (addVertex d src) dest)" by simp
    with False da nbrs [OF dg] same [of d] show ?thesis by simp
  qed
  have "bipartite_inv b" unfolding b_def by (rule bipartite_inv_reachable)
  then have bw: "wf_graph b" and bd: "\<not> isDirected b" and bs: "symmetric_adjacency b"
    and bc: "two_colorable (edge_rel b)"
    by (simp_all add: bipartite_inv_def undirected_inv_def)
  from bw have bg: "graph_inv b" by (simp add: wf_graph_def)
  have be: "edge_rel (addEdge b src dest w) = insert (src, dest) (insert (dest, src) (edge_rel b))"
    using bd by (simp add: edge_rel_addEdge [OF bg] insert_commute)
  note br = BipartiteGraph_addEdge_decides [OF bw bd bs bc, of src dest w, unfolded be]
  have B: "two_colorable (edge_rel b)
        \<and> (if two_colorable (insert (src, dest) (insert (dest, src) (edge_rel b)))
           then BipartiteGraph_addEdge b src dest w = (None, addEdge b src dest w)
           else fst (BipartiteGraph_addEdge b src dest w) = Some logic_error
                \<and> (\<forall>k. neighbors (adjList (snd (BipartiteGraph_addEdge b src dest w))) k
                        = neighbors (adjList b) k)
                \<and> (src |\<in>| vertices b \<and> dest |\<in>| vertices b
                     \<longrightarrow> snd (BipartiteGraph_addEdge b src dest w) = b))"
  proof (cases "two_colorable (insert (src, dest) (insert (dest, src) (edge_rel b)))")
    case True
    with br bc show ?thesis by simp
  next
    case False
    with br have "BipartiteGraph_addEdge b src dest w
        = (Some logic_error, addVertex (addVertex b src) dest)" by simp
    with False bc nbrs [OF bg] same [of b] show ?thesis by simp
  qed
  from D B show ?thesis unfolding Let_def d_def b_def by (rule conjI)
qed

definition scenario_B :: "int graph" where
  "scenario_B = fold (call New_DirectedAcyclicGraph)
     [Call_addEdge 1 2 1, Call_addEdge 1 3 1, Call_addEdge 2 4 1, Call_addEdge 3 4 1]
     (construct New_DirectedAcyclicGraph)"

definition scenario_C :: "int graph" where
  "scenario_C = fold (call New_BipartiteGraph)
     [Call_addEdge 1 2 1, Call_addEdge 1 4 1, Call_addEdge 2 3 1, Call_addEdge 3 4 1]
     (construct New_BipartiteGraph)"

theorem C1_rollback_witness:
  "\<not> acyclic (insert (4, 1) (edge_rel scenario_B))
   \<and> DirectedAcyclicGraph_addEdge scenario_B 4 1 1 = (Some logic_error, scenario_B)
   \<and> getNumEdges scenario_B = 4
   \<and> acyclic (insert (1, 4) (edge_rel scenario_B))
   \<and> fst (DirectedAcyclicGraph_addEdge scenario_B 1 4 1) = None
   \<and> getNumEdges (snd (DirectedAcyclicGraph_addEdge scenario_B 1 4 1)) = 5
   \<and> \<not> two_colorable (insert (1, 3) (insert (3, 1) (edge_rel scenario_C)))
   \<and> BipartiteGraph_addEdge scenario_C 1 3 1 = (Some logic_error, scenario_C)
   \<and> getNumEdges scenario_C = 4"
proof -
  let ?B = "[Call_addEdge (1::int) 2 1, Call_addEdge 1 3 1, Call_addEdge 2 4 1, Call_addEdge 3 4 1]"
  let ?C = "[Call_addEdge (1::int) 2 1, Call_addEdge 1 4 1, Call_addEdge 2 3 1, Call_addEdge 3 4 1]"
  have fB: "fst (DirectedAcyclicGraph_addEdge scenario_B 4 1 1) = Some logic_error"
    and vB: "1 |\<in>| vertices scenario_B" "4 |\<in>| vertices scenario_B"
    and eB: "getNumEdges scenario_B = 4"
    and aB: "fst (DirectedAcyclicGraph_addEdge scenario_B 1 4 1) = None"
    and nB: "getNumEdges (snd (DirectedAcyclicGraph_addEdge scenario_B 1 4 1)) = 5"
    by code_simp+
  have fC: "fst (BipartiteGraph_addEdge scenario_C 1 3 1) = Some logic_error"
    and vC: "1 |\<in>| vertices scenario_C" "3 |\<in>| vertices scenario_C"
    and eC: "getNumEdges scenario_C = 4"
    by code_simp+
  note rB = C1_rollback [of ?B 4 1 1, THEN conjunct1, unfolded Let_def, folded scenario_B_def]
  note aB' = C1_rollback [of ?B 1 4 1, THEN conjunct1, unfolded Let_def, folded scenario_B_def]
  note rC = C1_rollback [of ?C 1 3 1, THEN conjunct2, unfolded Let_def, folded scenario_C_def]
  have 1: "\<not> acyclic (insert (4, 1) (edge_rel scenario_B))"
  proof
    assume "acyclic (insert (4, 1) (edge_rel scenario_B))"
    with rB have "DirectedAcyclicGraph_addEdge scenario_B 4 1 1 = (None, addEdge scenario_B 4 1 1)"
      by (simp del: acyclic_insert)
    with fB show False by simp
  qed
  with rB vB have "snd (DirectedAcyclicGraph_addEdge scenario_B 4 1 1) = scenario_B" by (simp del: acyclic_insert)
  with fB have 2: "DirectedAcyclicGraph_addEdge scenario_B 4 1 1 = (Some logic_error, scenario_B)"
    by (simp add: prod_eq_iff)
  have 3: "acyclic (insert (1, 4) (edge_rel scenario_B))"
  proof (rule ccontr)
    assume "\<not> acyclic (insert (1, 4) (edge_rel scenario_B))"
    with aB' have "fst (DirectedAcyclicGraph_addEdge scenario_B 1 4 1) = Some logic_error" by (simp del: acyclic_insert)
    with aB show False by simp
  qed
  have 4: "\<not> two_colorable (insert (1, 3) (insert (3, 1) (edge_rel scenario_C)))"
  proof
    assume "two_colorable (insert (1, 3) (insert (3, 1) (edge_rel scenario_C)))"
    with rC have "BipartiteGraph_addEdge scenario_C 1 3 1 = (None, addEdge scenario_C 1 3 1)"
      by (simp del: acyclic_insert)
    with fC show False by simp
  qed
  with rC vC have "snd (BipartiteGraph_addEdge scenario_C 1 3 1) = scenario_C" by (simp del: acyclic_insert)
  with fC have 5: "BipartiteGraph_addEdge scenario_C 1 3 1 = (Some logic_error, scenario_C)"
    by (simp add: prod_eq_iff)
  from 1 2 eB 3 aB nB 4 5 eC show ?thesis by blast
qed

text \<open>
  C10. After any sequence of public mutating calls on an object of any class of the hierarchy,
  including calls that threw, \<open>getNumVertices()\<close> is the number of elements of the vertex set
  and every key of the adjacency map is a vertex; the same holds of every graph that
  \<open>operator+\<close> returns. The queries are \<open>const\<close> and change nothing.
\<close>

theorem C10_counter_and_keys:
  "getNumVertices (fold (call k) cs (construct k)) = int (fcard (vertices (fold (call k) cs (construct k))))
   \<and> fmdom (adjList (fold (call k) cs (construct k))) |\<subseteq>| vertices (fold (call k) cs (construct k))
   \<and> (\<forall>other r. operator_plus (fold (call k) cs (construct k)) other = Inr r \<longrightarrow>
        getNumVertices r = int (fcard (vertices r)) \<and> fmdom (adjList r) |\<subseteq>| vertices r)"
proof -
  have "graph_inv (fold (call k) cs (construct k))"
    by (intro graph_inv_calls graph_inv_construct)
  then show ?thesis
    using graph_inv_operator_plus [of "fold (call k) cs (construct k)"]
    by (simp add: graph_inv_def getNumVertices_def)
qed


theorem C10_counter_and_keys_witness:
  "getNumVertices (fold (call New_DirectedAcyclicGraph) [Call_addEdge 1 2 1, Call_addEdge 2 (1::int) 1]
      (construct New_DirectedAcyclicGraph)) = 2
   \<and> vertices (fold (call New_DirectedAcyclicGraph) [Call_addEdge 1 2 1, Call_addEdge 2 (1::int) 1]
      (construct New_DirectedAcyclicGraph)) = {|1, 2|}
   \<and> fst (virtual_addEdge New_DirectedAcyclicGraph
        (fold (call New_DirectedAcyclicGraph) [Call_addEdge 1 2 1] (construct New_DirectedAcyclicGraph))
        2 (1::int) 1) = Some logic_error"
proof -
  have v: "vertices (fold (call New_DirectedAcyclicGraph) [Call_addEdge 1 2 1, Call_addEdge 2 (1::int) 1]
      (construct New_DirectedAcyclicGraph)) = {|1, 2|}"
    by code_simp
  have c: "fcard {|1, 2::int|} = 2" by code_simp
  have e: "fst (virtual_addEdge New_DirectedAcyclicGraph
        (fold (call New_DirectedAcyclicGraph) [Call_addEdge 1 2 1] (construct New_DirectedAcyclicGraph))
        2 (1::int) 1) = Some logic_error"
    by code_simp
  from C10_counter_and_keys [of New_DirectedAcyclicGraph "[Call_addEdge 1 2 1, Call_addEdge 2 (1::int) 1]"]
  have "getNumVertices (fold (call New_DirectedAcyclicGraph) [Call_addEdge 1 2 1, Call_addEdge 2 (1::int) 1]
      (construct New_DirectedAcyclicGraph)) = int (fcard {|1, 2::int|})"
    unfolding v by blast
  with v c e show ?thesis by simp
qed

end
